theory Spec2Isabelle
  imports Complex_Main "HOL-Library.Log_Nat" "HOL-Library.Multiset"
begin

section \<open>JavaScript numbers\<close>

text \<open>
  A JavaScript Number is an IEEE 754 binary64 value.  The finite ones are carried by the
  rational they denote; every arithmetic operation computes the exact rational result and
  rounds it to the nearest binary64 value, ties to even (\<open>fl\<close>).  The sign of zero is not
  tracked: none of the modelled operations divides by a computed zero or inspects the sign.
\<close>

datatype number = NaN | NegInf | Fin rat | PosInf

text \<open>\<open>ilog2 x\<close> is the binary exponent of a non-zero rational: \<open>2^e \<le> |x| < 2^(e+1)\<close>.\<close>

definition ilog2 :: "rat \<Rightarrow> int" where
  "ilog2 x =
     (let (p, q) = quotient_of \<bar>x\<bar>;
          e = bitlen p - bitlen q
      in if 2 powi e \<le> \<bar>x\<bar> then e else e - 1)"

definition round_half_even :: "rat \<Rightarrow> int" where
  "round_half_even x =
     (let n = \<lfloor>x\<rfloor>; r = x - of_int n
      in if r < 1 / 2 then n
         else if 1 / 2 < r then n + 1
         else if even n then n else n + 1)"

text \<open>
  Rounding to binary64: 53 significant bits, the smallest quantum is \<open>2^-1074\<close>
  (subnormals), and a rounded magnitude of \<open>2^1024\<close> or more is an infinity.
\<close>

definition fl :: "rat \<Rightarrow> number" where
  "fl x =
     (if x = 0 then Fin 0
      else let q = 2 powi (max (ilog2 x) (- 1022) - 52);
               y = of_int (round_half_even (x / q)) * q
           in if 2 ^ 1024 \<le> y then PosInf
              else if y \<le> - (2 ^ 1024) then NegInf
              else Fin y)"

text \<open>\<open>a + b\<close> on Numbers.\<close>

fun fadd :: "number \<Rightarrow> number \<Rightarrow> number" where
  "fadd (Fin a) (Fin b) = fl (a + b)"
| "fadd NaN _ = NaN"
| "fadd _ NaN = NaN"
| "fadd PosInf NegInf = NaN"
| "fadd NegInf PosInf = NaN"
| "fadd PosInf _ = PosInf"
| "fadd _ PosInf = PosInf"
| "fadd NegInf _ = NegInf"
| "fadd _ NegInf = NegInf"

text \<open>\<open>a - b\<close> on Numbers.\<close>

fun fneg :: "number \<Rightarrow> number" where
  "fneg NaN = NaN"
| "fneg NegInf = PosInf"
| "fneg PosInf = NegInf"
| "fneg (Fin a) = Fin (- a)"

definition fsub :: "number \<Rightarrow> number \<Rightarrow> number" where
  "fsub a b = fadd a (fneg b)"

text \<open>\<open>a / b\<close> on Numbers (a zero divisor is taken as \<open>+0\<close>).\<close>

fun fdiv :: "number \<Rightarrow> number \<Rightarrow> number" where
  "fdiv (Fin a) (Fin b) =
     (if b = 0 then (if a = 0 then NaN else if 0 < a then PosInf else NegInf)
      else fl (a / b))"
| "fdiv NaN _ = NaN"
| "fdiv _ NaN = NaN"
| "fdiv (Fin a) _ = Fin 0"
| "fdiv PosInf (Fin b) = (if 0 \<le> b then PosInf else NegInf)"
| "fdiv NegInf (Fin b) = (if 0 \<le> b then NegInf else PosInf)"
| "fdiv _ _ = NaN"

text \<open>\<open>a > b\<close> on Numbers: false as soon as one side is NaN.\<close>

fun fgt :: "number \<Rightarrow> number \<Rightarrow> bool" where
  "fgt (Fin a) (Fin b) = (b < a)"
| "fgt NaN _ = False"
| "fgt _ NaN = False"
| "fgt PosInf PosInf = False"
| "fgt PosInf _ = True"
| "fgt _ PosInf = False"
| "fgt NegInf _ = False"
| "fgt _ NegInf = True"

text \<open>ToBoolean on a Number: \<open>0\<close> and NaN are falsy.\<close>

fun truthy :: "number \<Rightarrow> bool" where
  "truthy NaN = False"
| "truthy (Fin a) = (a \<noteq> 0)"
| "truthy _ = True"


subsection \<open>Reading and printing numbers\<close>

definition is_digit :: "char \<Rightarrow> bool" where
  "is_digit c = (48 \<le> (of_char c :: nat) \<and> (of_char c :: nat) \<le> 57)"

definition digit_val :: "char \<Rightarrow> nat" where
  "digit_val c = of_char c - 48"

definition digits_value :: "string \<Rightarrow> nat" where
  "digits_value ds = foldl (\<lambda>a c. 10 * a + digit_val c) 0 ds"

text \<open>The white space that \<open>parseFloat\<close> skips, among the code units below 256.\<close>

definition is_StrWhiteSpaceChar :: "char \<Rightarrow> bool" where
  "is_StrWhiteSpaceChar c = ((of_char c :: nat) \<in> {9, 10, 11, 12, 13, 32, 160})"

text \<open>
  An optional exponent part \<open>e[+-]digits\<close> at the head of a string: its value, or \<open>0\<close> when
  the string does not start with a complete exponent part.
\<close>

definition exponent_part :: "string \<Rightarrow> int" where
  "exponent_part s =
     (case s of
        [] \<Rightarrow> 0
      | c # r \<Rightarrow>
          if c = CHR ''e'' \<or> c = CHR ''E'' then
            (case r of
               [] \<Rightarrow> 0
             | d # r' \<Rightarrow>
                 if d = CHR ''-'' then - int (digits_value (takeWhile is_digit r'))
                 else if d = CHR ''+'' then int (digits_value (takeWhile is_digit r'))
                 else int (digits_value (takeWhile is_digit r)))
          else 0)"

text \<open>
  \<open>parseFloat(string)\<close>: leading white space is dropped, the longest prefix that is a
  \<open>StrDecimalLiteral\<close> is read, and its decimal value is rounded to a Number; NaN when no
  prefix is a literal.
\<close>

definition parseFloat :: "string \<Rightarrow> number" where
  "parseFloat string =
     (let trimmed = dropWhile is_StrWhiteSpaceChar string;
          neg = (trimmed \<noteq> [] \<and> hd trimmed = CHR ''-'');
          s = (if trimmed \<noteq> [] \<and> (hd trimmed = CHR ''-'' \<or> hd trimmed = CHR ''+'')
               then tl trimmed else trimmed)
      in if take 8 s = ''Infinity'' then (if neg then NegInf else PosInf)
         else
           let ip = takeWhile is_digit s;
               r1 = dropWhile is_digit s;
               fp = (case r1 of [] \<Rightarrow> [] | c # r \<Rightarrow> if c = CHR ''.'' then takeWhile is_digit r else []);
               r2 = (case r1 of [] \<Rightarrow> [] | c # r \<Rightarrow> if c = CHR ''.'' then dropWhile is_digit r else r1)
           in if ip = [] \<and> fp = [] then NaN
              else fl ((if neg then - 1 else 1) * of_nat (digits_value (ip @ fp))
                        * 10 powi (exponent_part r2 - int (length fp))))"

fun show_nat :: "nat \<Rightarrow> string" where
  "show_nat n =
     (if n < 10 then [''0123456789'' ! n]
      else show_nat (n div 10) @ [''0123456789'' ! (n mod 10)])"

declare show_nat.simps [simp del]

text \<open>
  The digits of \<open>Number::toString\<close> for a Number \<open>a \<ge> 10^21\<close> (an integer \<open>N\<close> of \<open>n\<close> decimal
  digits): the fewest significant digits \<open>k\<close> for which some multiple of \<open>10^(n-k)\<close> rounds
  to \<open>a\<close>, the closest one if two do, the even one on a tie.
\<close>

fun shortest :: "rat \<Rightarrow> nat \<Rightarrow> nat \<Rightarrow> nat list \<Rightarrow> nat" where
  "shortest a N n [] = N"
| "shortest a N n (k # ks) =
     (let p = 10 ^ (n - k);
          lo = (N div p) * p;
          hi = lo + p;
          okl = (fl (of_nat lo) = Fin a);
          okh = (fl (of_nat hi) = Fin a)
      in if okl \<and> okh then
           (if N - lo < hi - N then lo
            else if hi - N < N - lo then hi
            else if even (lo div p) then lo else hi)
         else if okl then lo
         else if okh then hi
         else shortest a N n ks)"

definition toString_large :: "rat \<Rightarrow> string" where
  "toString_large a =
     (let N = nat \<lfloor>a\<rfloor>;
          c = show_nat (shortest a N (length (show_nat N)) [1 ..< 18]);
          ds = rev (dropWhile (\<lambda>d. d = CHR ''0'') (rev c))
      in take 1 ds @ (if length ds \<le> 1 then [] else ''.'' @ drop 1 ds)
           @ ''e+'' @ show_nat (length c - 1))"

text \<open>\<open>Number.prototype.toFixed(2)\<close>.\<close>

definition toFixed2 :: "number \<Rightarrow> string" where
  "toFixed2 v =
     (case v of
        NaN \<Rightarrow> ''NaN''
      | PosInf \<Rightarrow> ''Infinity''
      | NegInf \<Rightarrow> ''-Infinity''
      | Fin x \<Rightarrow>
          (let s = (if x < 0 then ''-'' else []);
               a = \<bar>x\<bar>
           in if 10 ^ 21 \<le> a then s @ toString_large a
              else
                let n = nat \<lfloor>a * 100 + 1 / 2\<rfloor>;
                    m = show_nat n;
                    m = (if length m \<le> 2 then replicate (3 - length m) (CHR ''0'') @ m else m);
                    k = length m
                in s @ take (k - 2) m @ ''.'' @ drop (k - 2) m))"


section \<open>Time values and the calendar\<close>

text \<open>
  A time value is a number of milliseconds since 1970-01-01T00:00Z, or NaN for an invalid
  \<open>Date\<close> (\<open>None\<close>).  The functions are those of the ECMAScript specification, on integers.
\<close>

definition msPerDay :: int where
  "msPerDay = 86400000"

definition Day :: "int \<Rightarrow> int" where
  "Day t = t div msPerDay"

definition TimeWithinDay :: "int \<Rightarrow> int" where
  "TimeWithinDay t = t mod msPerDay"

definition DaysInYear :: "int \<Rightarrow> int" where
  "DaysInYear y =
     (if y mod 4 \<noteq> 0 then 365
      else if y mod 100 \<noteq> 0 then 366
      else if y mod 400 \<noteq> 0 then 365
      else 366)"

definition DayFromYear :: "int \<Rightarrow> int" where
  "DayFromYear y =
     365 * (y - 1970) + (y - 1969) div 4 - (y - 1901) div 100 + (y - 1601) div 400"

function year_down :: "int \<Rightarrow> int \<Rightarrow> int" where
  "year_down d y = (if DayFromYear y \<le> d then y else year_down d (y - 1))"
  by pat_completeness auto
termination
proof (relation "measure (\<lambda>(d, y). nat (DayFromYear y - d))")
  show "wf (measure (\<lambda>(d, y). nat (DayFromYear y - d)))" by simp
next
  fix d y :: int
  assume a: "\<not> DayFromYear y \<le> d"
  define a4 where "a4 = (y - 1969) div 4"
  define a100 where "a100 = (y - 1901) div 100"
  define a400 where "a400 = (y - 1601) div 400"
  define b4 where "b4 = (y - 1970) div 4"
  define b100 where "b100 = (y - 1902) div 100"
  define b400 where "b400 = (y - 1602) div 400"
  have h1: "b4 \<le> a4"
    unfolding a4_def b4_def by (rule zdiv_mono1) simp_all
  have "(y - 1901) div 100 \<le> (y - 1902 + 1 * 100) div 100"
    by (rule zdiv_mono1) simp_all
  then have h2: "a100 \<le> b100 + 1"
    unfolding a100_def b100_def by simp
  have h3: "b400 \<le> a400"
    unfolding a400_def b400_def by (rule zdiv_mono1) simp_all
  have e1: "DayFromYear (y - 1) = 365 * (y - 1971) + b4 - b100 + b400"
    by (simp add: DayFromYear_def b4_def b100_def b400_def)
  have e2: "DayFromYear y = 365 * (y - 1970) + a4 - a100 + a400"
    by (simp add: DayFromYear_def a4_def a100_def a400_def)
  have "365 * (y - 1971) + b4 - b100 + b400 < 365 * (y - 1970) + a4 - a100 + a400"
    using h1 h2 h3 by (simp add: algebra_simps)
  then have "DayFromYear (y - 1) < DayFromYear y"
    by (simp only: e1 e2)
  with a show "((d, y - 1), (d, y)) \<in> measure (\<lambda>(d, y). nat (DayFromYear y - d))"
    by simp
qed

declare year_down.simps [simp del]

definition YearFromTime :: "int \<Rightarrow> int" where
  "YearFromTime t =
     (let d = Day t
      in year_down d (1970 + (if 0 \<le> d then d div 365 else d div 366)))"

definition InLeapYear :: "int \<Rightarrow> int" where
  "InLeapYear t = (if DaysInYear (YearFromTime t) = 366 then 1 else 0)"

definition DayWithinYear :: "int \<Rightarrow> int" where
  "DayWithinYear t = Day t - DayFromYear (YearFromTime t)"

text \<open>The day number within the year on which month \<open>m\<close> (0 to 11) starts.\<close>

definition month_start :: "int \<Rightarrow> int \<Rightarrow> int" where
  "month_start m leap =
     (if m = 0 then 0 else if m = 1 then 31
      else [59, 90, 120, 151, 181, 212, 243, 273, 304, 334] ! nat (m - 2) + leap)"

definition MonthFromTime :: "int \<Rightarrow> int" where
  "MonthFromTime t =
     (let d = DayWithinYear t; l = InLeapYear t
      in if d < 31 then 0
         else if d < 59 + l then 1
         else if d < 90 + l then 2
         else if d < 120 + l then 3
         else if d < 151 + l then 4
         else if d < 181 + l then 5
         else if d < 212 + l then 6
         else if d < 243 + l then 7
         else if d < 273 + l then 8
         else if d < 304 + l then 9
         else if d < 334 + l then 10
         else 11)"

definition DateFromTime :: "int \<Rightarrow> int" where
  "DateFromTime t = DayWithinYear t - month_start (MonthFromTime t) (InLeapYear t) + 1"

definition MakeDay :: "int \<Rightarrow> int \<Rightarrow> int \<Rightarrow> int" where
  "MakeDay year month dt =
     (let ym = year + month div 12;
          mn = month mod 12
      in DayFromYear ym + month_start mn (if DaysInYear ym = 366 then 1 else 0) + dt - 1)"

definition MakeDate :: "int \<Rightarrow> int \<Rightarrow> int" where
  "MakeDate day time = day * msPerDay + time"

definition TimeClip :: "int \<Rightarrow> int option" where
  "TimeClip time = (if 8640000000000000 < \<bar>time\<bar> then None else Some time)"

text \<open>
  Local time.  The time zone of the host is the function \<open>LocalTZA\<close> of ECMAScript:
  \<open>tz t True\<close> is the offset of local time from UTC, in milliseconds, at the time value \<open>t\<close>,
  and \<open>tz t False\<close> is the offset to apply to the local time \<open>t\<close>.  With daylight saving the
  offset depends on the time.
\<close>

type_synonym zone = "int \<Rightarrow> bool \<Rightarrow> int"

definition LocalTime :: "zone \<Rightarrow> int \<Rightarrow> int" where
  "LocalTime tz t = t + tz t True"

definition UTC :: "zone \<Rightarrow> int \<Rightarrow> int" where
  "UTC tz t = t - tz t False"

definition getDate :: "zone \<Rightarrow> int \<Rightarrow> int" where
  "getDate tz t = DateFromTime (LocalTime tz t)"

definition getMonth :: "zone \<Rightarrow> int \<Rightarrow> int" where
  "getMonth tz t = MonthFromTime (LocalTime tz t)"

text \<open>\<open>setDate\<close> and \<open>setMonth\<close> return the new time value of the \<open>Date\<close> they update.\<close>

definition setDate :: "zone \<Rightarrow> int \<Rightarrow> int \<Rightarrow> int option" where
  "setDate tz t dt =
     (let lt = LocalTime tz t;
          newDate = MakeDate (MakeDay (YearFromTime lt) (MonthFromTime lt) dt) (TimeWithinDay lt)
      in TimeClip (UTC tz newDate))"

definition setMonth :: "zone \<Rightarrow> int \<Rightarrow> int \<Rightarrow> int option" where
  "setMonth tz t m =
     (let lt = LocalTime tz t;
          newDate = MakeDate (MakeDay (YearFromTime lt) m (DateFromTime lt)) (TimeWithinDay lt)
      in TimeClip (UTC tz newDate))"

text \<open>\<open>a >= b\<close> on two \<open>Date\<close>s: false as soon as one of them is invalid.\<close>

fun date_ge :: "int option \<Rightarrow> int option \<Rightarrow> bool" where
  "date_ge (Some a) (Some b) = (b \<le> a)"
| "date_ge _ _ = False"

fun tv_number :: "int option \<Rightarrow> number" where
  "tv_number None = NaN"
| "tv_number (Some t) = Fin (of_int t)"

text \<open>\<open>new Date(v)\<close> for a Number \<open>v\<close>.\<close>

fun Date_of_number :: "number \<Rightarrow> int option" where
  "Date_of_number (Fin q) =
     (if 8640000000000000 < \<bar>q\<bar> then None
      else Some (if 0 \<le> q then \<lfloor>q\<rfloor> else \<lceil>q\<rceil>))"
| "Date_of_number _ = None"

text \<open>
  \<open>Math.min\<close> and \<open>Math.max\<close> applied to the time values of a list of \<open>Date\<close>s: NaN as
  soon as one is invalid, and the infinities for no argument.
\<close>

definition Math_min :: "int option list \<Rightarrow> number" where
  "Math_min ts =
     (case those ts of
        None \<Rightarrow> NaN
      | Some [] \<Rightarrow> PosInf
      | Some (v # vs) \<Rightarrow> Fin (of_int (fold min vs v)))"

definition Math_max :: "int option list \<Rightarrow> number" where
  "Math_max ts =
     (case those ts of
        None \<Rightarrow> NaN
      | Some [] \<Rightarrow> NegInf
      | Some (v # vs) \<Rightarrow> Fin (of_int (fold max vs v)))"

text \<open>
  The date-only form \<open>YYYY-MM-DD\<close> of the date-time string format, which is what the value of
  an \<open>input type="date"\<close> control is: midnight UTC of that day.  It is used for the examples;
  the functions below take the parser of \<open>new Date(string)\<close> as a parameter \<open>dp\<close>.
\<close>

definition DaysInMonth :: "int \<Rightarrow> int \<Rightarrow> int" where
  "DaysInMonth y m =
     (if m = 2 then (if DaysInYear y = 366 then 29 else 28)
      else if m \<in> {4, 6, 9, 11} then 30 else 31)"

definition Date_parse_date_only :: "string \<Rightarrow> int option" where
  "Date_parse_date_only s =
     (if length s = 10 \<and> s ! 4 = CHR ''-'' \<and> s ! 7 = CHR ''-''
         \<and> list_all is_digit (take 4 s @ take 2 (drop 5 s) @ drop 8 s)
      then
        let y = int (digits_value (take 4 s));
            m = int (digits_value (take 2 (drop 5 s)));
            d = int (digits_value (drop 8 s))
        in if 1 \<le> m \<and> m \<le> 12 \<and> 1 \<le> d \<and> d \<le> DaysInMonth y m
           then TimeClip (MakeDate (MakeDay y (m - 1) d) 0)
           else None
      else None)"

section \<open>Expense records and the insights panel\<close>

record expense =
  id' :: int
  amount :: number
  date :: string
  category :: string
  description :: string

subsection \<open>Objects used as dictionaries\<close>

text \<open>
  \<open>categorySpends\<close> is an object keyed by category.  Its own properties are kept in creation
  order.  Reading a key that is no own property gives \<open>undefined\<close> (\<open>None\<close>); the members
  inherited from \<open>Object.prototype\<close> are not modelled, so the categories are assumed to differ
  from their names (\<open>inherited_keys\<close>).
\<close>

type_synonym object = "(string \<times> number) list"

definition inherited_keys :: "string list" where
  "inherited_keys =
     [''constructor'', ''hasOwnProperty'', ''isPrototypeOf'', ''propertyIsEnumerable'',
      ''toLocaleString'', ''toString'', ''valueOf'', ''__proto__'', ''__defineGetter__'',
      ''__defineSetter__'', ''__lookupGetter__'', ''__lookupSetter__'']"

definition obj_get :: "object \<Rightarrow> string \<Rightarrow> number option" where
  "obj_get obj k = map_of obj k"

definition obj_set :: "object \<Rightarrow> string \<Rightarrow> number \<Rightarrow> object" where
  "obj_set obj k v =
     (if k \<in> set (map fst obj) then map (\<lambda>(k', v'). if k' = k then (k', v) else (k', v')) obj
      else obj @ [(k, v)])"

text \<open>
  An array index is the canonical decimal string of an integer below \<open>2^32 - 1\<close>.
  \<open>Object.keys\<close> lists the array indices in ascending numeric order, then the other keys
  in creation order.
\<close>

definition array_index :: "string \<Rightarrow> nat option" where
  "array_index k =
     (if k \<noteq> [] \<and> list_all is_digit k \<and> (k = ''0'' \<or> hd k \<noteq> CHR ''0'')
         \<and> digits_value k < 2 ^ 32 - 1
      then Some (digits_value k) else None)"

definition Object_keys :: "object \<Rightarrow> string list" where
  "Object_keys obj =
     (let ks = map fst obj
      in sort_key (\<lambda>k. the (array_index k)) (filter (\<lambda>k. array_index k \<noteq> None) ks)
           @ filter (\<lambda>k. array_index k = None) ks)"

text \<open>\<open>obj[a] > obj[b]\<close>: \<open>undefined\<close> converts to NaN, so the comparison is false.\<close>

fun js_gt :: "number option \<Rightarrow> number option \<Rightarrow> bool" where
  "js_gt (Some x) (Some y) = fgt x y"
| "js_gt _ _ = False"

subsection \<open>updateInsights\<close>

definition totalSpend :: "expense list \<Rightarrow> number" where
  "totalSpend currentExpenses = foldl (\<lambda>sum exp. fadd sum (amount exp)) (Fin 0) currentExpenses"

definition categorySpends :: "expense list \<Rightarrow> object" where
  "categorySpends currentExpenses =
     foldl (\<lambda>acc exp.
              obj_set acc (category exp)
                (fadd (case obj_get acc (category exp) of
                         None \<Rightarrow> Fin 0
                       | Some v \<Rightarrow> if truthy v then v else Fin 0)
                      (amount exp)))
           [] currentExpenses"

definition highestCategory :: "expense list \<Rightarrow> string" where
  "highestCategory currentExpenses =
     (let spends = categorySpends currentExpenses
      in foldl (\<lambda>a b. if js_gt (obj_get spends a) (obj_get spends b) then a else b)
               ''-'' (Object_keys spends))"

definition firstDate :: "(string \<Rightarrow> int option) \<Rightarrow> expense list \<Rightarrow> int option" where
  "firstDate dp currentExpenses = Date_of_number (Math_min (map (\<lambda>e. dp (date e)) currentExpenses))"

definition lastDate :: "(string \<Rightarrow> int option) \<Rightarrow> expense list \<Rightarrow> int option" where
  "lastDate dp currentExpenses = Date_of_number (Math_max (map (\<lambda>e. dp (date e)) currentExpenses))"

definition weeks :: "(string \<Rightarrow> int option) \<Rightarrow> expense list \<Rightarrow> number" where
  "weeks dp currentExpenses =
     fadd (fdiv (fsub (tv_number (lastDate dp currentExpenses))
                      (tv_number (firstDate dp currentExpenses)))
                (Fin (1000 * 60 * 60 * 24 * 7)))
          (Fin 1)"

definition avgWeeklySpend :: "(string \<Rightarrow> int option) \<Rightarrow> expense list \<Rightarrow> number" where
  "avgWeeklySpend dp currentExpenses = fdiv (totalSpend currentExpenses) (weeks dp currentExpenses)"

text \<open>The text content of the four elements of the insights panel.\<close>

record panel =
  totalSpendEl :: string
  highestCategoryEl :: string
  avgSpendEl :: string
  suggestionEl :: string

definition updateInsights :: "(string \<Rightarrow> int option) \<Rightarrow> expense list \<Rightarrow> panel" where
  "updateInsights dp currentExpenses =
     (if length currentExpenses = 0 then
        \<lparr>totalSpendEl = ''0.00'',
         highestCategoryEl = ''-'',
         avgSpendEl = ''0.00'',
         suggestionEl = ''Add an expense to get started!''\<rparr>
      else
        \<lparr>totalSpendEl = toFixed2 (totalSpend currentExpenses),
         highestCategoryEl = highestCategory currentExpenses,
         avgSpendEl = toFixed2 (avgWeeklySpend dp currentExpenses),
         suggestionEl = ''You'' @ [CHR 0x27] @ ''re spending the most on ''
            @ highestCategory currentExpenses @ ''. Consider reviewing this category.''\<rparr>)"


section \<open>The page state and its event handlers\<close>

subsection \<open>Arrays behind references\<close>

text \<open>
  An array is held by reference: the heap maps a reference to the array's current elements
  (an unallocated reference holds no elements), and \<open>next_ref\<close> is the next free reference.
  A variable that holds an array holds its reference, so that an in-place update is seen
  through every variable that shares it.  What \<open>localStorage\<close> holds under a key is either
  some text or the text that \<open>JSON.stringify\<close> gives for an array of records, which is kept
  symbolic.
\<close>

datatype stored = Text string | Stringified "expense list"

record state =
  heap :: "nat \<Rightarrow> expense list"
  next_ref :: nat
  expenses :: nat
  localStorage :: "string \<rightharpoonup> stored"
  filterCategorySelect :: string
  filterCategoryOptions :: "string list"
  filterTimeSelect :: string
  tableRows :: "expense list"
  insights :: panel
  alerts :: "string list"
  successMessage :: bool

definition alloc :: "expense list \<Rightarrow> state \<Rightarrow> nat \<times> state" where
  "alloc xs st =
     (next_ref st, st\<lparr>heap := (heap st)(next_ref st := xs), next_ref := Suc (next_ref st)\<rparr>)"

text \<open>\<open>[...a]\<close>: a new array with the elements of \<open>a\<close>.\<close>

definition spread :: "nat \<Rightarrow> state \<Rightarrow> nat \<times> state" where
  "spread a st = alloc (heap st a) st"

text \<open>\<open>a.filter(p)\<close>: a new array.\<close>

definition Array_filter :: "(expense \<Rightarrow> bool) \<Rightarrow> nat \<Rightarrow> state \<Rightarrow> nat \<times> state" where
  "Array_filter p a st = alloc (filter p (heap st a)) st"

text \<open>
  \<open>a.sort(cmp)\<close> sorts the array \<open>a\<close> in place.  The sort is stable; a comparator result that
  is NaN counts as \<open>0\<close>.  For a consistent comparator the result is the one stable ordering,
  computed here by insertion; for an inconsistent one JavaScript leaves the order to the
  implementation.
\<close>

fun sort_insert :: "('a \<Rightarrow> 'a \<Rightarrow> number) \<Rightarrow> 'a \<Rightarrow> 'a list \<Rightarrow> 'a list" where
  "sort_insert cmp x [] = [x]"
| "sort_insert cmp x (y # ys) =
     (if fgt (cmp x y) (Fin 0) then y # sort_insert cmp x ys else x # y # ys)"

definition sorted_by :: "('a \<Rightarrow> 'a \<Rightarrow> number) \<Rightarrow> 'a list \<Rightarrow> 'a list" where
  "sorted_by cmp xs = foldr (sort_insert cmp) xs []"

definition Array_sort :: "(expense \<Rightarrow> expense \<Rightarrow> number) \<Rightarrow> nat \<Rightarrow> state \<Rightarrow> state" where
  "Array_sort cmp a st = st\<lparr>heap := (heap st)(a := sorted_by cmp (heap st a))\<rparr>"

text \<open>\<open>a.push(x)\<close>.\<close>

definition Array_push :: "nat \<Rightarrow> expense \<Rightarrow> state \<Rightarrow> state" where
  "Array_push a x st = st\<lparr>heap := (heap st)(a := heap st a @ [x])\<rparr>"

subsection \<open>Handlers\<close>

definition saveExpenses :: "state \<Rightarrow> state" where
  "saveExpenses st =
     st\<lparr>localStorage := (localStorage st)(''expenses'' \<mapsto> Stringified (heap st (expenses st)))\<rparr>"

text \<open>
  \<open>renderExpenses\<close> fills the table with one row for each record of its argument, in order;
  the state keeps the records shown.  \<open>renderCharts\<close> hands sums of its argument to the chart
  library and is left out.
\<close>

definition renderExpenses :: "expense list \<Rightarrow> state \<Rightarrow> state" where
  "renderExpenses filteredExpenses st = st\<lparr>tableRows := filteredExpenses\<rparr>"

text \<open>The distinct elements of a list in the order of their first occurrence (\<open>[...new Set(xs)]\<close>).\<close>

definition uniq :: "'a list \<Rightarrow> 'a list" where
  "uniq xs = rev (remdups (rev xs))"

text \<open>
  Replacing the options of the category filter leaves its first option, \<open>All\<close>, selected.
\<close>

definition populateFilterCategories :: "state \<Rightarrow> state" where
  "populateFilterCategories st =
     (let categories = uniq (map category (heap st (expenses st)))
      in st\<lparr>filterCategoryOptions := ''All'' # categories, filterCategorySelect := ''All''\<rparr>)"

text \<open>
  \<open>applyFilters\<close>, with the parser \<open>dp\<close> of \<open>new Date(string)\<close>, the time zone \<open>tz\<close> of the host
  and the time value \<open>now\<close> that \<open>new Date()\<close> reads from the clock.
\<close>

definition date_compare :: "(string \<Rightarrow> int option) \<Rightarrow> expense \<Rightarrow> expense \<Rightarrow> number" where
  "date_compare dp a b = fsub (tv_number (dp (date b))) (tv_number (dp (date a)))"

definition oneWeekAgo :: "zone \<Rightarrow> int \<Rightarrow> int option" where
  "oneWeekAgo tz now = setDate tz now (getDate tz now - 7)"

definition oneMonthAgo :: "zone \<Rightarrow> int \<Rightarrow> int option" where
  "oneMonthAgo tz now = setMonth tz now (getMonth tz now - 1)"

definition applyFilters :: "(string \<Rightarrow> int option) \<Rightarrow> zone \<Rightarrow> int \<Rightarrow> state \<Rightarrow> state" where
  "applyFilters dp tz now st =
     (let category' = filterCategorySelect st;
          period = filterTimeSelect st;
          (filteredExpenses, st) = spread (expenses st) st;
          (filteredExpenses, st) =
            (if category' \<noteq> ''All''
             then Array_filter (\<lambda>exp. category exp = category') filteredExpenses st
             else (filteredExpenses, st));
          (filteredExpenses, st) =
            (if period = ''Weekly''
             then Array_filter (\<lambda>exp. date_ge (dp (date exp)) (oneWeekAgo tz now)) filteredExpenses st
             else if period = ''Monthly''
             then Array_filter (\<lambda>exp. date_ge (dp (date exp)) (oneMonthAgo tz now)) filteredExpenses st
             else (filteredExpenses, st));
          st = Array_sort (date_compare dp) filteredExpenses st;
          st = renderExpenses (heap st filteredExpenses) st
      in st\<lparr>insights := updateInsights dp (heap st filteredExpenses)\<rparr>)"

text \<open>
  A submission of the expense form: the values of its four controls, the reading \<open>Date_now\<close>
  of \<open>Date.now()\<close> that becomes the id, and the later reading \<open>clock\<close> of \<open>new Date()\<close> in
  \<open>applyFilters\<close>.  The controls of the form are inputs of the handler: resetting them
  afterwards is not modelled, nor is the timer that hides the success message again.
\<close>

record submission =
  amountInput :: string
  dateInput :: string
  categorySelect :: string
  descriptionInput :: string
  Date_now :: int
  clock :: int

definition rejected :: "submission \<Rightarrow> bool" where
  "rejected sub = (\<not> truthy (parseFloat (amountInput sub)) \<or> dateInput sub = [] \<or> categorySelect sub = [])"

definition submit :: "(string \<Rightarrow> int option) \<Rightarrow> zone \<Rightarrow> submission \<Rightarrow> state \<Rightarrow> state" where
  "submit dp tz sub st =
     (let amount' = parseFloat (amountInput sub);
          date' = dateInput sub;
          category' = categorySelect sub;
          description' = descriptionInput sub
      in if \<not> truthy amount' \<or> date' = [] \<or> category' = []
         then st\<lparr>alerts := alerts st @ [''Please fill in all required fields.'']\<rparr>
         else
           let newExpense = \<lparr>id' = Date_now sub, amount = amount', date = date',
                               category = category', description = description'\<rparr>;
               st = Array_push (expenses st) newExpense st;
               st = saveExpenses st;
               st = applyFilters dp tz (clock sub) st;
               st = populateFilterCategories st
           in st\<lparr>successMessage := True\<rparr>)"

text \<open>A sequence of submissions, one after the other.\<close>

definition submits :: "(string \<Rightarrow> int option) \<Rightarrow> zone \<Rightarrow> submission list \<Rightarrow> state \<Rightarrow> state" where
  "submits dp tz subs st = foldl (\<lambda>st sub. submit dp tz sub st) st subs"

text \<open>The array that the variable \<open>expenses\<close> refers to.\<close>

definition ledger :: "state \<Rightarrow> expense list" where
  "ledger st = heap st (expenses st)"

text \<open>
  The state once the script has set \<open>expenses\<close> to a new empty array, when nothing is stored.
  What the controls and the panel show at that moment is given by the HTML document; the
  filters are taken to show \<open>All\<close> and the panel to be empty.
\<close>

definition fresh :: state where
  "fresh =
     \<lparr>heap = (\<lambda>_. []), next_ref = 1, expenses = 0, localStorage = Map.empty,
      filterCategorySelect = ''All'', filterCategoryOptions = [''All''],
      filterTimeSelect = ''All'', tableRows = [],
      insights = \<lparr>totalSpendEl = [], highestCategoryEl = [], avgSpendEl = [], suggestionEl = []\<rparr>,
      alerts = [], successMessage = False\<rparr>"


section \<open>Loading the stored expenses\<close>

text \<open>
  \<open>JSON.parse\<close> on a text of code units below 256.  String values are lists of UTF-16 code
  units, since a \<open>\u\<close> escape can name any of them.  The text is cut into tokens by a scanner
  that reads one character at a time; a pushdown automaton then builds the value.  \<open>None\<close>
  is the \<open>SyntaxError\<close> that \<open>JSON.parse\<close> throws.
\<close>

datatype json =
    JNull
  | JBool bool
  | JNum number
  | JStr "nat list"
  | JArr "json list"
  | JObj "(nat list \<times> json) list"

datatype token = LBrace | RBrace | LBrack | RBrack | Colon | Comma | TValue json

datatype lex_mode =
    Between
  | Word string
  | InString "nat list"
  | Escape "nat list"
  | Unicode "nat list" nat nat

definition is_json_ws :: "char \<Rightarrow> bool" where
  "is_json_ws c = ((of_char c :: nat) \<in> {9, 10, 13, 32})"

definition is_word_char :: "char \<Rightarrow> bool" where
  "is_word_char c = (\<not> is_json_ws c \<and> c \<notin> set ''{}[]:,'' \<and> c \<noteq> CHR 0x22)"

text \<open>A JSON number: \<open>-? (0 | [1-9][0-9]*) (. [0-9]+)? ([eE] [+-]? [0-9]+)?\<close>.\<close>

definition json_number :: "string \<Rightarrow> number option" where
  "json_number w =
     (let neg = (w \<noteq> [] \<and> hd w = CHR ''-'');
          s = (if neg then tl w else w);
          ip = takeWhile is_digit s;
          r1 = dropWhile is_digit s;
          hasfrac = (r1 \<noteq> [] \<and> hd r1 = CHR ''.'');
          fp = (if hasfrac then takeWhile is_digit (tl r1) else []);
          r2 = (if hasfrac then dropWhile is_digit (tl r1) else r1);
          hasexp = (r2 \<noteq> [] \<and> (hd r2 = CHR ''e'' \<or> hd r2 = CHR ''E''));
          r3 = (if hasexp then tl r2 else []);
          esign = (r3 \<noteq> [] \<and> (hd r3 = CHR ''-'' \<or> hd r3 = CHR ''+''));
          ed = (if esign then tl r3 else r3);
          ex = (if r3 \<noteq> [] \<and> hd r3 = CHR ''-'' then - int (digits_value ed) else int (digits_value ed));
          valid = (ip \<noteq> [] \<and> (ip = ''0'' \<or> hd ip \<noteq> CHR ''0'')
                   \<and> (if hasfrac then fp \<noteq> [] else True)
                   \<and> (if hasexp then ed \<noteq> [] \<and> list_all is_digit ed else r2 = []))
      in if valid
         then Some (fl ((if neg then - 1 else 1) * of_nat (digits_value (ip @ fp))
                         * 10 powi (ex - int (length fp))))
         else None)"

definition word_token :: "string \<Rightarrow> token option" where
  "word_token w =
     (if w = ''null'' then Some (TValue JNull)
      else if w = ''true'' then Some (TValue (JBool True))
      else if w = ''false'' then Some (TValue (JBool False))
      else map_option (\<lambda>n. TValue (JNum n)) (json_number w))"

definition hex_val :: "char \<Rightarrow> nat option" where
  "hex_val c =
     (let n = (of_char c :: nat)
      in if 48 \<le> n \<and> n \<le> 57 then Some (n - 48)
         else if 65 \<le> n \<and> n \<le> 70 then Some (n - 55)
         else if 97 \<le> n \<and> n \<le> 102 then Some (n - 87)
         else None)"

definition between :: "char \<Rightarrow> token list \<Rightarrow> (lex_mode \<times> token list) option" where
  "between c ts =
     (if is_json_ws c then Some (Between, ts)
      else if c = CHR ''{'' then Some (Between, LBrace # ts)
      else if c = CHR ''}'' then Some (Between, RBrace # ts)
      else if c = CHR ''['' then Some (Between, LBrack # ts)
      else if c = CHR '']'' then Some (Between, RBrack # ts)
      else if c = CHR '':'' then Some (Between, Colon # ts)
      else if c = CHR '','' then Some (Between, Comma # ts)
      else if c = CHR 0x22 then Some (InString [], ts)
      else Some (Word [c], ts))"

text \<open>The tokens are collected in reverse.\<close>

fun lex_step :: "lex_mode \<times> token list \<Rightarrow> char \<Rightarrow> (lex_mode \<times> token list) option" where
  "lex_step (Between, ts) c = between c ts"
| "lex_step (Word w, ts) c =
     (if is_word_char c then Some (Word (w @ [c]), ts)
      else case word_token w of None \<Rightarrow> None | Some t \<Rightarrow> between c (t # ts))"
| "lex_step (InString s, ts) c =
     (if c = CHR 0x22 then Some (Between, TValue (JStr s) # ts)
      else if c = CHR 0x5C then Some (Escape s, ts)
      else if (of_char c :: nat) < 32 then None
      else Some (InString (s @ [of_char c]), ts))"
| "lex_step (Escape s, ts) c =
     (if c = CHR 0x22 \<or> c = CHR 0x5C \<or> c = CHR ''/'' then Some (InString (s @ [of_char c]), ts)
      else if c = CHR ''b'' then Some (InString (s @ [8]), ts)
      else if c = CHR ''f'' then Some (InString (s @ [12]), ts)
      else if c = CHR ''n'' then Some (InString (s @ [10]), ts)
      else if c = CHR ''r'' then Some (InString (s @ [13]), ts)
      else if c = CHR ''t'' then Some (InString (s @ [9]), ts)
      else if c = CHR ''u'' then Some (Unicode s 0 0, ts)
      else None)"
| "lex_step (Unicode s k v, ts) c =
     (case hex_val c of
        None \<Rightarrow> None
      | Some d \<Rightarrow>
          if k = 3 then Some (InString (s @ [16 * v + d]), ts)
          else Some (Unicode s (Suc k) (16 * v + d), ts))"

fun lex_from :: "lex_mode \<times> token list \<Rightarrow> string \<Rightarrow> token list option" where
  "lex_from (Between, ts) [] = Some (rev ts)"
| "lex_from (Word w, ts) [] = map_option (\<lambda>t. rev (t # ts)) (word_token w)"
| "lex_from (m, ts) [] = None"
| "lex_from st (c # cs) = (case lex_step st c of None \<Rightarrow> None | Some st' \<Rightarrow> lex_from st' cs)"

text \<open>
  The automaton: a stack of the arrays and objects that are still open (array elements in
  reverse, object members in creation order with the key that awaits its value), and what
  may come next.
\<close>

datatype frame = FArr "json list" | FObj "(nat list \<times> json) list" "nat list option"

datatype expect =
    ExpectValue
  | ValueOrClose
  | KeyOrClose
  | ExpectKey
  | ExpectColon
  | CommaOrClose
  | Done json

definition assoc_set :: "('k \<times> 'v) list \<Rightarrow> 'k \<Rightarrow> 'v \<Rightarrow> ('k \<times> 'v) list" where
  "assoc_set obj k v =
     (if k \<in> set (map fst obj) then map (\<lambda>(k', v'). if k' = k then (k', v) else (k', v')) obj
      else obj @ [(k, v)])"

fun put_value :: "json \<Rightarrow> frame list \<Rightarrow> (expect \<times> frame list) option" where
  "put_value v [] = Some (Done v, [])"
| "put_value v (FArr items # fs) = Some (CommaOrClose, FArr (v # items) # fs)"
| "put_value v (FObj members (Some k) # fs) = Some (CommaOrClose, FObj (assoc_set members k v) None # fs)"
| "put_value v (FObj members None # fs) = None"

definition open_or_value :: "token \<Rightarrow> frame list \<Rightarrow> (expect \<times> frame list) option" where
  "open_or_value t fs =
     (case t of
        TValue v \<Rightarrow> put_value v fs
      | LBrack \<Rightarrow> Some (ValueOrClose, FArr [] # fs)
      | LBrace \<Rightarrow> Some (KeyOrClose, FObj [] None # fs)
      | _ \<Rightarrow> None)"

definition close_array :: "frame list \<Rightarrow> (expect \<times> frame list) option" where
  "close_array fs =
     (case fs of
        FArr items # fs' \<Rightarrow> put_value (JArr (rev items)) fs'
      | _ \<Rightarrow> None)"

definition close_object :: "frame list \<Rightarrow> (expect \<times> frame list) option" where
  "close_object fs =
     (case fs of
        FObj members None # fs' \<Rightarrow> put_value (JObj members) fs'
      | _ \<Rightarrow> None)"

definition take_key :: "token \<Rightarrow> frame list \<Rightarrow> (expect \<times> frame list) option" where
  "take_key t fs =
     (case (t, fs) of
        (TValue (JStr k), FObj members None # fs') \<Rightarrow> Some (ExpectColon, FObj members (Some k) # fs')
      | _ \<Rightarrow> None)"

definition parse_step :: "expect \<times> frame list \<Rightarrow> token \<Rightarrow> (expect \<times> frame list) option" where
  "parse_step st t =
     (case st of
        (ExpectValue, fs) \<Rightarrow> open_or_value t fs
      | (ValueOrClose, fs) \<Rightarrow> if t = RBrack then close_array fs else open_or_value t fs
      | (KeyOrClose, fs) \<Rightarrow> if t = RBrace then close_object fs else take_key t fs
      | (ExpectKey, fs) \<Rightarrow> take_key t fs
      | (ExpectColon, fs) \<Rightarrow> if t = Colon then Some (ExpectValue, fs) else None
      | (CommaOrClose, fs) \<Rightarrow>
          if t = Comma then
            (case fs of
               FArr items # fs' \<Rightarrow> Some (ExpectValue, fs)
             | FObj members None # fs' \<Rightarrow> Some (ExpectKey, fs)
             | _ \<Rightarrow> None)
          else if t = RBrack then close_array fs
          else if t = RBrace then close_object fs
          else None
      | (Done v, fs) \<Rightarrow> None)"

fun parse_from :: "expect \<times> frame list \<Rightarrow> token list \<Rightarrow> json option" where
  "parse_from (Done v, fs) [] = Some v"
| "parse_from (e, fs) [] = None"
| "parse_from st (t # ts) = (case parse_step st t of None \<Rightarrow> None | Some st' \<Rightarrow> parse_from st' ts)"

definition JSON_parse :: "string \<Rightarrow> json option" where
  "JSON_parse text =
     (case lex_from (Between, []) text of
        None \<Rightarrow> None
      | Some ts \<Rightarrow> parse_from (ExpectValue, []) ts)"

text \<open>ToBoolean on a parsed value.\<close>

fun json_truthy :: "json \<Rightarrow> bool" where
  "json_truthy JNull = False"
| "json_truthy (JBool b) = b"
| "json_truthy (JNum n) = truthy n"
| "json_truthy (JStr s) = (s \<noteq> [])"
| "json_truthy (JArr xs) = True"
| "json_truthy (JObj fs) = True"

text \<open>
  \<open>JSON.parse(localStorage.getItem("expenses")) || []\<close>, for what \<open>getItem\<close> returns: \<open>null\<close>
  (\<open>None\<close>), which \<open>JSON.parse\<close> reads as the text \<open>null\<close>, or the stored text.  The result is
  the value that \<open>expenses\<close> is set to, or the exception that ends the script.
\<close>

datatype exception = SyntaxError

definition loadExpenses :: "string option \<Rightarrow> exception + json" where
  "loadExpenses item =
     (case JSON_parse (case item of None \<Rightarrow> ''null'' | Some text \<Rightarrow> text) of
        None \<Rightarrow> Inl SyntaxError
      | Some v \<Rightarrow> Inr (if json_truthy v then v else JArr []))"


section \<open>Reference notions and example data\<close>

text \<open>
  The calendar, counted out: the year and the month of a day number are found by taking
  whole years off, from 1970 on, and then whole months off, from January on, each with
  the number of days that the Gregorian calendar gives it.
\<close>

function year_and_day :: "int \<Rightarrow> int \<Rightarrow> int \<times> int" where
  "year_and_day y r =
     (if r < 0 then year_and_day (y - 1) (r + DaysInYear (y - 1))
      else if DaysInYear y \<le> r then year_and_day (y + 1) (r - DaysInYear y)
      else (y, r))"
  by pat_completeness auto
termination
  by (relation "measure (\<lambda>(y, r). if r < 0 then nat (- r) + 366 else nat r)")
    (auto simp: DaysInYear_def)

declare year_and_day.simps [simp del]

function month_and_day :: "int \<Rightarrow> int \<Rightarrow> int \<Rightarrow> int \<times> int" where
  "month_and_day y m r =
     (if m < 12 \<and> DaysInMonth y m \<le> r then month_and_day y (m + 1) (r - DaysInMonth y m)
      else (m, r))"
  by pat_completeness auto
termination
  by (relation "measure (\<lambda>(y, m, r). nat (12 - m))") auto

declare month_and_day.simps [simp del]

text \<open>The year, the month (1 to 12) and the day of the month of a day number.\<close>

definition civil_of_day :: "int \<Rightarrow> int \<times> int \<times> int" where
  "civil_of_day n =
     (let (y, r) = year_and_day 1970 n;
          (m, r') = month_and_day y 1 r
      in (y, m, r' + 1))"

text \<open>The number of days of the calendar month before the month of a day number.\<close>

definition days_in_previous_month :: "int \<Rightarrow> int" where
  "days_in_previous_month n =
     (let (y, m, d) = civil_of_day n
      in if m = 1 then DaysInMonth (y - 1) 12 else DaysInMonth y (m - 1))"

text \<open>
  The start of a period: the moment at which the local clock and calendar showed what they
  show at \<open>now\<close>, less the length of the period.  A week is seven days; one calendar month
  is as many days as the calendar month before the current one has, so that the day of
  the month is the same in the previous month whenever that month has such a day.
\<close>

definition local_time_before :: "zone \<Rightarrow> int \<Rightarrow> int \<Rightarrow> int option" where
  "local_time_before tz now ms = TimeClip (UTC tz (LocalTime tz now - ms))"

definition one_week_before :: "zone \<Rightarrow> int \<Rightarrow> int option" where
  "one_week_before tz now = local_time_before tz now (7 * msPerDay)"

definition one_calendar_month_before :: "zone \<Rightarrow> int \<Rightarrow> int option" where
  "one_calendar_month_before tz now =
     local_time_before tz now (days_in_previous_month (Day (LocalTime tz now)) * msPerDay)"

text \<open>
  The filter criteria: the category is \<open>All\<close> or matches exactly, and the date is not before
  the start of the period for \<open>Weekly\<close> and \<open>Monthly\<close>.
\<close>

definition criteria_spec ::
    "(string \<Rightarrow> int option) \<Rightarrow> zone \<Rightarrow> int \<Rightarrow> string \<Rightarrow> string \<Rightarrow> expense \<Rightarrow> bool" where
  "criteria_spec dp tz now cat period e =
     ((cat = ''All'' \<or> category e = cat)
      \<and> (if period = ''Weekly'' then date_ge (dp (date e)) (one_week_before tz now)
         else if period = ''Monthly'' then date_ge (dp (date e)) (one_calendar_month_before tz now)
         else True))"

text \<open>
  Two time zones for the examples: UTC, and New York in 2024, five hours behind UTC and four
  hours behind it between 10 March 07:00 UTC and 3 November 06:00 UTC.  A local time in the
  hour that the clocks skip or repeat is read with the offset before the change.
\<close>

definition UTC_zone :: zone where
  "UTC_zone t isUTC = 0"


text \<open>Records for the examples.\<close>

definition rec :: "int \<Rightarrow> rat \<Rightarrow> string \<Rightarrow> string \<Rightarrow> expense" where
  "rec i a d c = \<lparr>id' = i, amount = Fin a, date = d, category = c, description = []\<rparr>"

text \<open>The whole number that a Number holds, for a Number that holds one.\<close>

fun whole :: "number \<Rightarrow> int" where
  "whole (Fin q) = \<lfloor>q\<rfloor>"
| "whole _ = 0"

section \<open>Properties of the number model\<close>

lemma ilog2_bounds:
  assumes "x \<noteq> 0"
  shows "2 powi (ilog2 x) \<le> \<bar>x\<bar> \<and> \<bar>x\<bar> < 2 powi (ilog2 x + 1)"
proof -
  obtain p q where pq: "quotient_of \<bar>x\<bar> = (p, q)" by (cases "quotient_of \<bar>x\<bar>")
  have q: "0 < q" using pq by (rule quotient_of_denom_pos)
  have x: "\<bar>x\<bar> = of_int p / of_int q" using pq by (simp add: quotient_of_div)
  have p: "0 < p"
  proof -
    have "0 < \<bar>x\<bar>" using assms by simp
    then have "(0::rat) < of_int p / of_int q" using x by simp
    then show ?thesis using q by (simp add: zero_less_divide_iff)
  qed
  define e where "e = bitlen p - bitlen q"
  have bp: "2 ^ nat (bitlen p - 1) \<le> p" "p < 2 ^ nat (bitlen p)"
    using bitlen_bounds[OF p] by auto
  have bq: "2 ^ nat (bitlen q - 1) \<le> q" "q < 2 ^ nat (bitlen q)"
    using bitlen_bounds[OF q] by auto
  have bp1: "1 \<le> bitlen p" using p by (simp add: bitlen_alt_def)
  have bq1: "1 \<le> bitlen q" using q by (simp add: bitlen_alt_def)
  have P1: "(2::rat) powi (bitlen p - 1) \<le> of_int p"
  proof -
    have "(2::rat) powi (bitlen p - 1) = 2 ^ nat (bitlen p - 1)"
      using bp1 by (simp add: power_int_nonneg_exp)
    also have "\<dots> = of_int (2 ^ nat (bitlen p - 1))" by simp
    also have "\<dots> \<le> of_int p" using bp(1) by (simp only: of_int_le_iff)
    finally show ?thesis .
  qed
  have P2: "of_int p < (2::rat) powi (bitlen p)"
  proof -
    have "(of_int p :: rat) < of_int (2 ^ nat (bitlen p))" using bp(2) by (simp only: of_int_less_iff)
    also have "\<dots> = 2 ^ nat (bitlen p)" by simp
    also have "\<dots> = 2 powi (bitlen p)" using bp1 by (simp add: power_int_nonneg_exp)
    finally show ?thesis .
  qed
  have Q1: "(2::rat) powi (bitlen q - 1) \<le> of_int q"
  proof -
    have "(2::rat) powi (bitlen q - 1) = 2 ^ nat (bitlen q - 1)"
      using bq1 by (simp add: power_int_nonneg_exp)
    also have "\<dots> = of_int (2 ^ nat (bitlen q - 1))" by simp
    also have "\<dots> \<le> of_int q" using bq(1) by (simp only: of_int_le_iff)
    finally show ?thesis .
  qed
  have Q2: "of_int q < (2::rat) powi (bitlen q)"
  proof -
    have "(of_int q :: rat) < of_int (2 ^ nat (bitlen q))" using bq(2) by (simp only: of_int_less_iff)
    also have "\<dots> = 2 ^ nat (bitlen q)" by simp
    also have "\<dots> = 2 powi (bitlen q)" using bq1 by (simp add: power_int_nonneg_exp)
    finally show ?thesis .
  qed
  have qr: "(0::rat) < of_int q" using q by simp
  have pr: "(0::rat) < of_int p" using p by simp
  have lo: "(2::rat) powi (e - 1) < \<bar>x\<bar>"
  proof -
    have "(2::rat) powi (e - 1) = 2 powi (bitlen p - 1) / 2 powi (bitlen q)"
      unfolding e_def by (simp add: power_int_diff)
    also have "\<dots> \<le> of_int p / 2 powi (bitlen q)"
      using P1 by (simp add: divide_right_mono)
    also have "\<dots> < of_int p / of_int q"
      using Q2 pr qr by (simp add: divide_strict_left_mono)
    finally show ?thesis using x by simp
  qed
  have hi: "\<bar>x\<bar> < (2::rat) powi (e + 1)"
  proof -
    have "\<bar>x\<bar> = of_int p / of_int q" by (rule x)
    also have "\<dots> < 2 powi (bitlen p) / of_int q"
      using P2 qr by (simp add: divide_strict_right_mono)
    also have "\<dots> \<le> 2 powi (bitlen p) / 2 powi (bitlen q - 1)"
      using Q1 qr by (simp add: divide_left_mono)
    also have "\<dots> = 2 powi (e + 1)"
    proof -
      have "e + 1 = bitlen p - (bitlen q - 1)" unfolding e_def by simp
      then have "(2::rat) powi (e + 1) = 2 powi (bitlen p - (bitlen q - 1))" by (rule arg_cong)
      also have "\<dots> = 2 powi (bitlen p) / 2 powi (bitlen q - 1)" by (rule power_int_diff) simp
      finally show ?thesis by (rule sym)
    qed
    finally show ?thesis .
  qed
  have il: "ilog2 x = (if 2 powi e \<le> \<bar>x\<bar> then e else e - 1)"
    unfolding ilog2_def pq e_def by (simp add: Let_def)
  show ?thesis
  proof (cases "2 powi e \<le> \<bar>x\<bar>")
    case True
    then show ?thesis using il hi by simp
  next
    case False
    then show ?thesis using il lo by simp
  qed
qed

lemma ilog2_unique:
  assumes "2 powi e \<le> \<bar>x\<bar>" "\<bar>x\<bar> < 2 powi (e + 1)"
  shows "ilog2 x = e"
proof -
  have "(0::rat) < 2 powi e" by simp
  with assms(1) have "0 < \<bar>x\<bar>" by linarith
  then have x0: "x \<noteq> 0" by simp
  note b = ilog2_bounds[OF x0]
  have "(2::rat) powi (ilog2 x) < 2 powi (e + 1)" using b assms by linarith
  then have 1: "ilog2 x < e + 1"
    using power_int_increasing[of "e + 1" "ilog2 x" "2::rat"] by (cases "ilog2 x < e + 1") auto
  have "(2::rat) powi e < 2 powi (ilog2 x + 1)" using b assms by linarith
  then have 2: "e < ilog2 x + 1"
    using power_int_increasing[of "ilog2 x + 1" e "2::rat"] by (cases "e < ilog2 x + 1") auto
  from 1 2 show ?thesis by simp
qed

lemma round_half_even_of_int [simp]: "round_half_even (of_int n) = n"
  by (simp add: round_half_even_def)

lemma fl_0 [simp]: "fl 0 = Fin 0"
  by (simp add: fl_def)

lemma fl_eqI:
  assumes "2 powi e \<le> \<bar>x\<bar>" "\<bar>x\<bar> < 2 powi (e + 1)"
    and "t = max e (- 1022) - 52"
    and "round_half_even (x / 2 powi t) = n"
    and "\<bar>of_int n * 2 powi t\<bar> < (2::rat) ^ 1024"
  shows "fl x = Fin (of_int n * 2 powi t)"
proof -
  have "(0::rat) < 2 powi e" by simp
  with assms(1) have "0 < \<bar>x\<bar>" by linarith
  then have x0: "x \<noteq> 0" by simp
  have il: "ilog2 x = e" using assms(1,2) by (rule ilog2_unique)
  from assms(5) have "\<not> 2 ^ 1024 \<le> of_int n * (2::rat) powi t" "\<not> of_int n * (2::rat) powi t \<le> - (2 ^ 1024)"
    by (simp_all add: abs_less_iff not_le)
  then show ?thesis
    using x0 il assms(3,4) by (simp only: fl_def Let_def if_False)
qed

lemma fl_exact:
  assumes x: "x = of_int m * 2 powi t" and m: "\<bar>m\<bar> \<le> 2 ^ 53"
    and t: "- 1074 \<le> t" and b: "\<bar>x\<bar> < 2 ^ 1024"
  shows "fl x = Fin x"
proof (cases "x = 0")
  case True
  then show ?thesis by simp
next
  case False
  define e where "e = ilog2 x"
  define t' where "t' = max e (- 1022) - 52"
  have eb: "2 powi e \<le> \<bar>x\<bar>" "\<bar>x\<bar> < 2 powi (e + 1)"
    using ilog2_bounds[OF False] by (simp_all add: e_def)
  have ax: "\<bar>x\<bar> = of_int \<bar>m\<bar> * 2 powi t"
    by (simp add: x abs_mult)
  have "\<exists>k. x / 2 powi t' = of_int k"
  proof (cases "\<bar>m\<bar> = 2 ^ 53")
    case True
    then have "\<bar>x\<bar> = 2 powi (53 + t)"
      using ax by (simp add: power_int_add)
    then have "ilog2 x = 53 + t"
      by (intro ilog2_unique) (simp_all add: power_int_add)
    then have t': "t' = t + 1" using t by (simp add: t'_def e_def)
    from True have "m = 2 ^ 53 \<or> m = - (2 ^ 53)" by (auto simp: abs_if split: if_splits)
    then have "x / 2 powi t' = of_int (m div 2)"
      unfolding t' x by (auto simp: power_int_add)
    then show ?thesis ..
  next
    case False
    with m have "\<bar>m\<bar> < 2 ^ 53" by simp
    then have "(of_int \<bar>m\<bar> :: rat) < of_int (2 ^ 53)" by (simp only: of_int_less_iff)
    then have "\<bar>x\<bar> < 2 ^ 53 * 2 powi t"
      unfolding ax by simp
    also have "\<dots> = 2 powi (53 + t)" by (simp add: power_int_add)
    finally have "(2::rat) powi e < 2 powi (53 + t)" using eb(1) by linarith
    then have "e < 53 + t"
      using power_int_increasing[of "53 + t" e "2::rat"] by (cases "e < 53 + t") auto
    then have le: "t' \<le> t" using t by (simp add: t'_def)
    have "x / 2 powi t' = of_int m * 2 powi (t - t')"
      unfolding x by (simp add: power_int_diff)
    also have "\<dots> = of_int m * 2 ^ nat (t - t')"
      using le by (simp add: power_int_nonneg_exp)
    also have "\<dots> = of_int (m * 2 ^ nat (t - t'))" by simp
    finally show ?thesis ..
  qed
  then obtain k where k: "x / 2 powi t' = of_int k" ..
  then have xk: "of_int k * 2 powi t' = x" by (simp add: field_simps)
  have "fl x = Fin (of_int k * 2 powi t')"
    using eb
  proof (rule fl_eqI)
    show "t' = max e (- 1022) - 52" by (rule t'_def)
    show "round_half_even (x / 2 powi t') = k" by (simp add: k)
    show "\<bar>of_int k * 2 powi t'\<bar> < (2::rat) ^ 1024" using b xk by simp
  qed
  then show ?thesis by (simp add: xk)
qed

lemma fl_of_int: "\<bar>i\<bar> \<le> 2 ^ 53 \<Longrightarrow> fl (of_int i) = Fin (of_int i)"
proof (rule fl_exact[where m = i and t = 0])
  assume a: "\<bar>i\<bar> \<le> 2 ^ 53"
  show "(of_int i :: rat) = of_int i * 2 powi 0" by simp
  show "\<bar>i\<bar> \<le> 2 ^ 53" by (rule a)
  show "- 1074 \<le> (0::int)" by simp
  have "\<bar>of_int i :: rat\<bar> = of_int \<bar>i\<bar>" by simp
  also have "\<dots> \<le> of_int (2 ^ 53)" using a by (simp only: of_int_le_iff)
  also have "\<dots> < 2 ^ 1024" by simp
  finally show "\<bar>of_int i :: rat\<bar> < 2 ^ 1024" .
qed

lemma fl_numeral [simp]: "numeral n \<le> (2::int) ^ 53 \<Longrightarrow> fl (numeral n) = Fin (numeral n)"
  using fl_of_int[of "numeral n"] by simp

lemma fl_neg_numeral [simp]: "numeral n \<le> (2::int) ^ 53 \<Longrightarrow> fl (- numeral n) = Fin (- numeral n)"
  using fl_of_int[of "- numeral n"] by simp

lemma fl_1 [simp]: "fl 1 = Fin 1"
  using fl_of_int[of 1] by simp

lemma floor_numeral_div [simp]:
  "\<lfloor>numeral a / numeral b :: rat\<rfloor> = numeral a div numeral b"
  using floor_divide_of_int_eq[of "numeral a" "numeral b", where ?'a = rat] by simp

lemma floor_neg_numeral_div [simp]:
  "\<lfloor>- numeral a / numeral b :: rat\<rfloor> = - numeral a div numeral b"
  using floor_divide_of_int_eq[of "- numeral a" "numeral b", where ?'a = rat] by simp


lemma fl_big_odd: "fl 9007199254740993 = Fin 9007199254740992"
  using fl_eqI[of 53 "9007199254740993" 1 "4503599627370496"]
  by (simp add: round_half_even_def Let_def)

lemma fl_big_even: "fl 9007199254740994 = Fin 9007199254740994"
  using fl_exact[of "9007199254740994" "4503599627370497" 1] by simp

lemma round_half_even_lower: "of_int a \<le> x \<Longrightarrow> a \<le> round_half_even x"
proof -
  assume "of_int a \<le> x"
  then have "a \<le> \<lfloor>x\<rfloor>" by (simp add: le_floor_iff)
  then show ?thesis by (simp add: round_half_even_def Let_def)
qed

lemma round_half_even_upper: "x \<le> of_int b \<Longrightarrow> round_half_even x \<le> b"
proof (cases "x = of_int b")
  case True
  then show ?thesis by simp
next
  case False
  assume "x \<le> of_int b"
  with False have "x < of_int b" by simp
  then have "\<lfloor>x\<rfloor> < b" by (simp add: floor_less_iff)
  then show ?thesis by (simp add: round_half_even_def Let_def)
qed

lemma round_half_even_minus: "round_half_even (- x) = - round_half_even x"
proof (cases "x = of_int \<lfloor>x\<rfloor>")
  case True
  then obtain n where "x = of_int n" ..
  then have "- x = of_int (- n)" by simp
  then show ?thesis using \<open>x = of_int n\<close> by (simp only: round_half_even_of_int)
next
  case False
  define n where "n = \<lfloor>x\<rfloor>"
  define r where "r = x - of_int n"
  have r: "0 < r" "r < 1"
    using False unfolding r_def n_def by (simp, linarith) linarith
  have cast: "(of_int (- n - 1) :: rat) = - of_int n - 1" by simp
  have fl: "\<lfloor>- x\<rfloor> = - n - 1"
    using r unfolding r_def cast by (intro floor_unique) (unfold cast, linarith+)
  have r': "- x - of_int (- n - 1) = 1 - r" unfolding r_def by simp
  show ?thesis
    unfolding round_half_even_def Let_def fl r' n_def[symmetric] r_def[symmetric]
    using r by (auto simp: field_simps)
qed

lemma ilog2_minus [simp]: "ilog2 (- x) = ilog2 x"
  by (simp add: ilog2_def)

lemma fl_minus: "fl (- x) = fneg (fl x)"
proof (cases "x = 0")
  case True
  then show ?thesis by simp
next
  case False
  define q :: rat where "q = 2 powi (max (ilog2 x) (- 1022) - 52)"
  define y where "y = of_int (round_half_even (x / q)) * q"
  have 1: "fl x = (if 2 ^ 1024 \<le> y then PosInf else if y \<le> - (2 ^ 1024) then NegInf else Fin y)"
    using False by (simp add: fl_def Let_def q_def y_def)
  have "of_int (round_half_even (- x / q)) * q = - y"
    by (simp add: y_def round_half_even_minus)
  then have 2: "fl (- x) = (if 2 ^ 1024 \<le> - y then PosInf else if - y \<le> - (2 ^ 1024) then NegInf else Fin (- y))"
    using False by (simp add: fl_def Let_def q_def)
  show ?thesis unfolding 1 2 by auto
qed

lemma fl_pos_bounds:
  assumes lo: "2 powi lo \<le> x" and hi: "x \<le> 2 powi hi"
    and l: "- 1022 \<le> lo" and h: "hi < 1024"
  shows "\<exists>y. fl x = Fin y \<and> 2 powi lo \<le> y \<and> y \<le> 2 powi hi"
proof -
  have "(0::rat) < 2 powi lo" by simp
  with lo have x0: "0 < x" by linarith
  define e where "e = ilog2 x"
  define t where "t = e - 52"
  have eb: "2 powi e \<le> \<bar>x\<bar>" "\<bar>x\<bar> < 2 powi (e + 1)"
    using ilog2_bounds[of x] x0 by (simp_all add: e_def)
  have "(2::rat) powi lo < 2 powi (e + 1)" using lo eb x0 by linarith
  then have le: "lo \<le> e"
    using power_int_increasing[of "e + 1" lo "2::rat"] by (cases "lo < e + 1") auto
  have "(2::rat) powi e \<le> 2 powi hi" using hi eb x0 by linarith
  then have eh: "e \<le> hi"
    using power_int_strict_increasing[of hi e "2::rat"] by (cases "e \<le> hi") auto
  have t: "t = max e (- 1022) - 52" using le l by (simp add: t_def)
  define n where "n = round_half_even (x / 2 powi t)"
  have "(2::rat) powi e / 2 powi t \<le> x / 2 powi t"
    using eb(1) x0 by (simp add: divide_right_mono)
  moreover have "(2::rat) powi e / 2 powi t = of_int (2 ^ 52)"
    unfolding t_def by (simp add: power_int_diff)
  ultimately have "of_int (2 ^ 52) \<le> x / 2 powi t" by simp
  then have n1: "2 ^ 52 \<le> n" unfolding n_def by (rule round_half_even_lower)
  have "x / 2 powi t \<le> 2 powi hi / 2 powi t"
    using hi by (simp add: divide_right_mono)
  moreover have "(2::rat) powi hi / 2 powi t = of_int (2 ^ nat (hi - t))"
  proof -
    have "(2::rat) powi hi / 2 powi t = 2 powi (hi - t)" by (simp add: power_int_diff)
    also have "\<dots> = 2 ^ nat (hi - t)" using eh by (simp add: power_int_nonneg_exp t_def)
    finally show ?thesis by simp
  qed
  ultimately have "x / 2 powi t \<le> of_int (2 ^ nat (hi - t))" by simp
  then have n2: "n \<le> 2 ^ nat (hi - t)" unfolding n_def by (rule round_half_even_upper)
  define y :: rat where "y = of_int n * 2 powi t"
  have y1: "2 powi lo \<le> y"
  proof -
    have "(2::rat) powi lo \<le> 2 powi e" using le by (simp add: power_int_increasing)
    also have "\<dots> = of_int (2 ^ 52) * 2 powi t" unfolding t_def by (simp add: power_int_diff)
    also have "\<dots> \<le> of_int n * 2 powi t"
      using n1 by (intro mult_right_mono) (simp_all only: of_int_le_iff, simp)
    finally show ?thesis by (simp add: y_def)
  qed
  have y2: "y \<le> 2 powi hi"
  proof -
    have "y \<le> of_int (2 ^ nat (hi - t)) * 2 powi t"
      unfolding y_def using n2 by (intro mult_right_mono) (simp_all only: of_int_le_iff, simp)
    also have "\<dots> = 2 powi (hi - t) * 2 powi t" using eh by (simp add: power_int_nonneg_exp t_def)
    also have "\<dots> = 2 powi hi" by (simp add: power_int_diff)
    finally show ?thesis .
  qed
  have "(2::rat) powi hi \<le> 2 powi 1023"
    using h power_int_increasing[of hi 1023 "2::rat"] by linarith
  also have "\<dots> < 2 ^ 1024" by simp
  finally have y3: "y < 2 ^ 1024" using y2 by linarith
  have "(0::rat) < 2 powi lo" by simp
  with y1 have "0 < y" by linarith
  with y3 have "\<bar>y\<bar> < 2 ^ 1024" by simp
  then have "fl x = Fin y"
    unfolding y_def using eb t n_def by (intro fl_eqI) simp_all
  with y1 y2 show ?thesis by blast
qed

lemma fl_ge_1: "1 \<le> x \<Longrightarrow> fgt (fl x) (Fin 0)"
proof -
  assume x: "1 \<le> x"
  define e where "e = ilog2 x"
  define t where "t = e - 52"
  have eb: "2 powi e \<le> \<bar>x\<bar>" "\<bar>x\<bar> < 2 powi (e + 1)"
    using ilog2_bounds[of x] x by (simp_all add: e_def)
  have "(2::rat) powi 0 < 2 powi (e + 1)" using x eb by simp
  then have e0: "0 \<le> e"
    using power_int_increasing[of "e + 1" 0 "2::rat"] by (cases "0 < e + 1") auto
  define n where "n = round_half_even (x / 2 powi t)"
  have "(2::rat) powi e / 2 powi t \<le> x / 2 powi t"
    using eb(1) x by (simp add: divide_right_mono)
  moreover have "(2::rat) powi e / 2 powi t = of_int (2 ^ 52)"
    unfolding t_def by (simp add: power_int_diff)
  ultimately have "of_int (2 ^ 52) \<le> x / 2 powi t" by simp
  then have n1: "2 ^ 52 \<le> n" unfolding n_def by (rule round_half_even_lower)
  define y :: rat where "y = of_int n * 2 powi t"
  have "0 < n" using n1 by simp
  then have "0 < y" unfolding y_def by simp
  moreover have "fl x = (if 2 ^ 1024 \<le> y then PosInf else if y \<le> - (2 ^ 1024) then NegInf else Fin y)"
    using x e0 by (auto simp add: fl_def Let_def y_def n_def t_def e_def max_def)
  ultimately show ?thesis by auto
qed

lemma fgt_fl_int: "fgt (fl (of_int d)) (Fin 0) \<longleftrightarrow> 0 < d"
proof -
  consider "0 < d" | "d = 0" | "d < 0" by linarith
  then show ?thesis
  proof cases
    case 1
    then have "(1::rat) \<le> of_int d" by simp
    then show ?thesis using 1 fl_ge_1 by simp
  next
    case 2
    then show ?thesis by simp
  next
    case 3
    then have "(1::rat) \<le> of_int (- d)" by simp
    then have "fgt (fl (of_int (- d))) (Fin 0)" by (simp only: fl_ge_1)
    moreover have "fl (of_int d) = fneg (fl (of_int (- d)))"
      using fl_minus[of "of_int (- d)"] by simp
    ultimately show ?thesis using 3 by (cases "fl (of_int (- d))") auto
  qed
qed

section \<open>The insights panel\<close>

text \<open>
  C6.  For an empty list of records, \<open>updateInsights\<close> writes \<open>0.00\<close> as the total spend, \<open>-\<close>
  as the top category, \<open>0.00\<close> as the average weekly spend and the fixed invitation to add an
  expense; the function is total, so it does so without failing.
\<close>

theorem updateInsights_empty:
  "updateInsights dp [] =
     \<lparr>totalSpendEl = ''0.00'', highestCategoryEl = ''-'', avgSpendEl = ''0.00'',
      suggestionEl = ''Add an expense to get started!''\<rparr>"
  by (simp add: updateInsights_def)

theorem updateInsights_empty_witness:
  "totalSpendEl (updateInsights Date_parse_date_only []) = ''0.00''
   \<and> highestCategoryEl (updateInsights Date_parse_date_only []) = ''-''
   \<and> avgSpendEl (updateInsights Date_parse_date_only []) = ''0.00''
   \<and> suggestionEl (updateInsights Date_parse_date_only []) = ''Add an expense to get started!''"
  using updateInsights_empty[of Date_parse_date_only] by simp

lemma foldl_fadd_whole:
  assumes "\<forall>e\<in>set xs. amount e = Fin (of_int (u e))"
    and "\<bar>a\<bar> + (\<Sum>e\<leftarrow>xs. \<bar>u e\<bar>) \<le> 2 ^ 53"
  shows "foldl (\<lambda>sum exp. fadd sum (amount exp)) (Fin (of_int a)) xs
         = Fin (of_int (a + (\<Sum>e\<leftarrow>xs. u e)))"
  using assms
proof (induction xs arbitrary: a)
  case Nil
  then show ?case by simp
next
  case (Cons x xs)
  have ax: "amount x = Fin (of_int (u x))" using Cons.prems(1) by simp
  have nonneg: "0 \<le> (\<Sum>e\<leftarrow>xs. \<bar>u e\<bar>)" by (rule sum_list_nonneg) auto
  have b: "\<bar>a + u x\<bar> \<le> 2 ^ 53" using Cons.prems(2) nonneg by simp
  have step: "fadd (Fin (of_int a)) (amount x) = Fin (of_int (a + u x))"
    using fl_of_int[OF b] by (simp add: ax)
  have "foldl (\<lambda>sum exp. fadd sum (amount exp)) (Fin (of_int (a + u x))) xs
        = Fin (of_int (a + u x + (\<Sum>e\<leftarrow>xs. u e)))"
  proof (rule Cons.IH)
    show "\<forall>e\<in>set xs. amount e = Fin (of_int (u e))" using Cons.prems(1) by simp
    show "\<bar>a + u x\<bar> + (\<Sum>e\<leftarrow>xs. \<bar>u e\<bar>) \<le> 2 ^ 53" using Cons.prems(2) by simp
  qed
  then show ?case by (simp add: step add.assoc)
qed

lemma totalSpend_whole:
  assumes "\<forall>e\<in>set xs. amount e = Fin (of_int (u e))"
    and "(\<Sum>e\<leftarrow>xs. \<bar>u e\<bar>) \<le> 2 ^ 53"
  shows "totalSpend xs = Fin (of_int (\<Sum>e\<leftarrow>xs. u e))"
  using foldl_fadd_whole[of xs u 0] assms by (simp add: totalSpend_def)

text \<open>
  C7 (amended).  \<open>totalSpend\<close> adds the amounts from left to right in double precision.  When
  the amounts are whole numbers whose magnitudes add up to at most \<open>2^53\<close>, the total is their
  arithmetic sum, and it is the same for every permutation of the records.
\<close>

theorem totalSpend_whole_amounts:
  assumes "\<forall>e\<in>set xs. amount e = Fin (of_int (u e))"
    and "(\<Sum>e\<leftarrow>xs. \<bar>u e\<bar>) \<le> 2 ^ 53"
    and "mset ys = mset xs"
  shows "totalSpend xs = Fin (of_int (\<Sum>e\<leftarrow>xs. u e)) \<and> totalSpend ys = totalSpend xs"
proof -
  have x: "totalSpend xs = Fin (of_int (\<Sum>e\<leftarrow>xs. u e))"
    using assms(1,2) by (rule totalSpend_whole)
  have "set ys = set xs" using assms(3) by (rule mset_eq_setD)
  then have 1: "\<forall>e\<in>set ys. amount e = Fin (of_int (u e))" using assms(1) by simp
  have abs: "(\<Sum>e\<leftarrow>ys. \<bar>u e\<bar>) = (\<Sum>e\<leftarrow>xs. \<bar>u e\<bar>)"
    using assms(3) by (metis mset_map sum_mset_sum_list)
  have eq: "(\<Sum>e\<leftarrow>ys. u e) = (\<Sum>e\<leftarrow>xs. u e)"
    using assms(3) by (metis mset_map sum_mset_sum_list)
  have "totalSpend ys = Fin (of_int (\<Sum>e\<leftarrow>ys. u e))"
    using 1 assms(2) abs by (intro totalSpend_whole) simp_all
  with x eq show ?thesis by simp
qed

theorem totalSpend_whole_amounts_witness:
  "totalSpend [rec 1 100 ''2024-01-01'' ''Food'', rec 2 50 ''2024-01-08'' ''Food''] = Fin 150
   \<and> totalSpend [rec 2 50 ''2024-01-08'' ''Food'', rec 1 100 ''2024-01-01'' ''Food'']
     = totalSpend [rec 1 100 ''2024-01-01'' ''Food'', rec 2 50 ''2024-01-08'' ''Food'']"
  using totalSpend_whole_amounts[of "[rec 1 100 ''2024-01-01'' ''Food'', rec 2 50 ''2024-01-08'' ''Food'']"
      "\<lambda>e. whole (amount e)" "[rec 2 50 ''2024-01-08'' ''Food'', rec 1 100 ''2024-01-01'' ''Food'']"]
  by (simp add: rec_def)

text \<open>
  The claim as stated fails: adding \<open>2^53\<close>, \<open>1\<close> and \<open>1\<close> in this order gives \<open>2^53\<close>, which is
  not their sum, and the same three records with the large amount last give \<open>2^53 + 2\<close>.
\<close>

theorem totalSpend_order_counterexample:
  "totalSpend [rec 1 9007199254740992 ''2024-01-01'' ''Rent'', rec 2 1 ''2024-01-02'' ''Food'',
               rec 3 1 ''2024-01-03'' ''Food''] = Fin 9007199254740992
   \<and> totalSpend [rec 2 1 ''2024-01-02'' ''Food'', rec 3 1 ''2024-01-03'' ''Food'',
                 rec 1 9007199254740992 ''2024-01-01'' ''Rent''] = Fin 9007199254740994"
  by (simp add: totalSpend_def rec_def fl_big_odd fl_big_even)

lemma those_map_Some: "\<forall>x\<in>set xs. f x = Some (g x) \<Longrightarrow> those (map f xs) = Some (map g xs)"
  by (induction xs) simp_all

lemma Math_min_valid:
  assumes "xs \<noteq> []" "\<forall>e\<in>set xs. dp (date e) = Some (t e)"
  shows "Math_min (map (\<lambda>e. dp (date e)) xs) = Fin (of_int (Min (t ` set xs)))"
proof -
  obtain x xs' where xs: "xs = x # xs'" using assms(1) by (cases xs) auto
  have "those (map (\<lambda>e. dp (date e)) xs) = Some (map t xs)"
    using assms(2) by (rule those_map_Some)
  moreover have "fold min (map t xs') (t x) = Min (set (t x # map t xs'))"
    by (simp only: Min.set_eq_fold)
  ultimately show ?thesis by (simp add: Math_min_def xs)
qed

lemma Math_max_valid:
  assumes "xs \<noteq> []" "\<forall>e\<in>set xs. dp (date e) = Some (t e)"
  shows "Math_max (map (\<lambda>e. dp (date e)) xs) = Fin (of_int (Max (t ` set xs)))"
proof -
  obtain x xs' where xs: "xs = x # xs'" using assms(1) by (cases xs) auto
  have "those (map (\<lambda>e. dp (date e)) xs) = Some (map t xs)"
    using assms(2) by (rule those_map_Some)
  moreover have "fold max (map t xs') (t x) = Max (set (t x # map t xs'))"
    by (simp only: Max.set_eq_fold)
  ultimately show ?thesis by (simp add: Math_max_def xs)
qed

lemma Date_of_number_int: "\<bar>m\<bar> \<le> 2 ^ 52 \<Longrightarrow> Date_of_number (Fin (of_int m)) = Some m"
proof -
  assume "\<bar>m\<bar> \<le> 2 ^ 52"
  then have "\<bar>m\<bar> \<le> 8640000000000000" by simp
  then have "\<bar>of_int m :: rat\<bar> \<le> of_int 8640000000000000"
    by (simp only: of_int_abs[symmetric] of_int_le_iff)
  then show ?thesis by simp
qed

lemma weeks_valid:
  assumes ne: "xs \<noteq> []" and v: "\<forall>e\<in>set xs. dp (date e) = Some (t e) \<and> \<bar>t e\<bar> \<le> 2 ^ 52"
  shows "weeks dp xs = fadd (fl (of_int (Max (t ` set xs) - Min (t ` set xs)) / 604800000)) (Fin 1)"
proof -
  have v1: "\<forall>e\<in>set xs. dp (date e) = Some (t e)" using v by simp
  have fin: "finite (t ` set xs)" "t ` set xs \<noteq> {}" using ne by simp_all
  have "Min (t ` set xs) \<in> t ` set xs" using fin by (rule Min_in)
  then have mn: "\<bar>Min (t ` set xs)\<bar> \<le> 2 ^ 52" using v by auto
  have "Max (t ` set xs) \<in> t ` set xs" using fin by (rule Max_in)
  then have mx: "\<bar>Max (t ` set xs)\<bar> \<le> 2 ^ 52" using v by auto
  have f: "firstDate dp xs = Some (Min (t ` set xs))"
    unfolding firstDate_def Math_min_valid[OF ne v1] using mn by (rule Date_of_number_int)
  have l: "lastDate dp xs = Some (Max (t ` set xs))"
    unfolding lastDate_def Math_max_valid[OF ne v1] using mx by (rule Date_of_number_int)
  have "\<bar>Max (t ` set xs) - Min (t ` set xs)\<bar> \<le> 2 ^ 53" using mn mx by simp
  then have "fl (of_int (Max (t ` set xs) - Min (t ` set xs))) = Fin (of_int (Max (t ` set xs) - Min (t ` set xs)))"
    by (rule fl_of_int)
  then have "fsub (Fin (of_int (Max (t ` set xs)))) (Fin (of_int (Min (t ` set xs))))
      = Fin (of_int (Max (t ` set xs) - Min (t ` set xs)))"
    by (simp add: fsub_def)
  then show ?thesis by (simp add: weeks_def f l)
qed

lemma week_span_ge_1:
  assumes "0 \<le> d" "d \<le> 2 ^ 53"
  shows "\<exists>w. fadd (fl (of_int d / 604800000)) (Fin 1) = Fin w \<and> 1 \<le> w"
proof (cases "d = 0")
  case True
  then show ?thesis by simp
next
  case False
  with assms have d1: "1 \<le> d" by simp
  have "(2::rat) powi (- 30) \<le> 1 / 604800000" by (simp add: power_int_minus_divide)
  also have "\<dots> \<le> of_int d / 604800000"
    using d1 by (simp add: divide_right_mono)
  finally have lo: "(2::rat) powi (- 30) \<le> of_int d / 604800000" .
  have "(of_int d :: rat) \<le> of_int (2 ^ 53)" using assms(2) by (simp only: of_int_le_iff)
  then have "(of_int d :: rat) / 604800000 \<le> 2 ^ 53 / 604800000" by (simp add: divide_right_mono)
  also have "\<dots> \<le> 2 powi 53" by simp
  finally have hi: "(of_int d :: rat) / 604800000 \<le> 2 powi 53" .
  obtain y where y: "fl (of_int d / 604800000) = Fin y" "2 powi (- 30) \<le> y" "y \<le> 2 powi 53"
    using fl_pos_bounds[OF lo hi] by auto
  have "(0::rat) < 2 powi (- 30)" by simp
  with y(2) have y0: "0 < y" by linarith
  have lo2: "(2::rat) powi 0 \<le> y + 1" using y0 by simp
  have "y + 1 \<le> 2 powi 53 + 1" using y(3) by simp
  also have "\<dots> \<le> 2 powi 54" by simp
  finally have hi2: "y + 1 \<le> 2 powi 54" .
  obtain w where w: "fl (y + 1) = Fin w" "2 powi 0 \<le> w"
    using fl_pos_bounds[OF lo2 hi2] by auto
  then show ?thesis by (simp add: y(1))
qed

lemma Date_parse_2024_01_01: "Date_parse_date_only ''2024-01-01'' = Some 1704067200000"
  by (simp add: Date_parse_date_only_def is_digit_def digits_value_def digit_val_def DaysInMonth_def
      TimeClip_def MakeDate_def MakeDay_def DayFromYear_def DaysInYear_def month_start_def msPerDay_def)

lemma Date_parse_2024_01_08: "Date_parse_date_only ''2024-01-08'' = Some 1704672000000"
  by (simp add: Date_parse_date_only_def is_digit_def digits_value_def digit_val_def DaysInMonth_def
      TimeClip_def MakeDate_def MakeDay_def DayFromYear_def DaysInYear_def month_start_def msPerDay_def)

lemma show_nat_numeral [simp]:
  "show_nat (numeral k) =
     (if (numeral k :: nat) < 10 then [''0123456789'' ! numeral k]
      else show_nat (numeral k div 10) @ [''0123456789'' ! (numeral k mod 10)])"
  by (subst show_nat.simps) simp

lemma show_nat_0 [simp]: "show_nat 0 = ''0''"
  by (simp add: show_nat.simps)

lemma show_nat_1 [simp]: "show_nat (Suc 0) = ''1''"
  by (simp add: show_nat.simps)

lemma toFixed2_150: "toFixed2 (Fin 150) = ''150.00''"
  by (simp add: toFixed2_def Let_def)

lemma example_insights:
  "totalSpend [rec 1 100 ''2024-01-01'' ''Food'', rec 2 50 ''2024-01-08'' ''Food''] = Fin 150
   \<and> weeks Date_parse_date_only [rec 1 100 ''2024-01-01'' ''Food'', rec 2 50 ''2024-01-08'' ''Food''] = Fin 2
   \<and> avgWeeklySpend Date_parse_date_only [rec 1 100 ''2024-01-01'' ''Food'', rec 2 50 ''2024-01-08'' ''Food''] = Fin 75
   \<and> highestCategory [rec 1 100 ''2024-01-01'' ''Food'', rec 2 50 ''2024-01-08'' ''Food''] = ''Food''"
  by (simp add: totalSpend_def weeks_def avgWeeklySpend_def rec_def firstDate_def lastDate_def
      Math_min_def Math_max_def Date_parse_2024_01_01 Date_parse_2024_01_08 TimeClip_def fsub_def
      highestCategory_def categorySpends_def obj_get_def obj_set_def Object_keys_def array_index_def
      is_digit_def)


text \<open>
  C5.  For a non-empty list of records with valid dates (within \<open>2^52\<close> milliseconds of the
  epoch, some 140000 years), the average weekly spend is the total spend divided by the week
  span; the week span is the number of days between the earliest and the latest date,
  divided by 7, plus 1, in double precision; it is a finite number that is at least 1, so
  the division is never by zero, and it is 1 when all records share one date.  On the
  two-record example the total is 150, the week span 2 and the average 75, shown as
  \<open>150.00\<close> and \<open>75.00\<close>.
\<close>

theorem avgWeeklySpend_week_span:
  "(xs \<noteq> [] \<and> (\<forall>e\<in>set xs. dp (date e) = Some (t e) \<and> \<bar>t e\<bar> \<le> 2 ^ 52) \<longrightarrow>
      avgWeeklySpend dp xs = fdiv (totalSpend xs) (weeks dp xs)
      \<and> weeks dp xs
          = fadd (fl (of_int (Max (t ` set xs) - Min (t ` set xs)) / of_int msPerDay / 7)) (Fin 1)
      \<and> (\<exists>w. weeks dp xs = Fin w \<and> 1 \<le> w)
      \<and> ((\<forall>e\<in>set xs. t e = t (hd xs)) \<longrightarrow> weeks dp xs = Fin 1))
   \<and> totalSpend [rec 1 100 ''2024-01-01'' ''Food'', rec 2 50 ''2024-01-08'' ''Food''] = Fin 150
   \<and> weeks Date_parse_date_only
        [rec 1 100 ''2024-01-01'' ''Food'', rec 2 50 ''2024-01-08'' ''Food''] = Fin 2
   \<and> avgWeeklySpend Date_parse_date_only
        [rec 1 100 ''2024-01-01'' ''Food'', rec 2 50 ''2024-01-08'' ''Food''] = Fin 75
   \<and> totalSpendEl (updateInsights Date_parse_date_only
        [rec 1 100 ''2024-01-01'' ''Food'', rec 2 50 ''2024-01-08'' ''Food'']) = ''150.00''
   \<and> avgSpendEl (updateInsights Date_parse_date_only
        [rec 1 100 ''2024-01-01'' ''Food'', rec 2 50 ''2024-01-08'' ''Food'']) = ''75.00''"
proof -
  have general: "avgWeeklySpend dp xs = fdiv (totalSpend xs) (weeks dp xs)
      \<and> weeks dp xs
          = fadd (fl (of_int (Max (t ` set xs) - Min (t ` set xs)) / of_int msPerDay / 7)) (Fin 1)
      \<and> (\<exists>w. weeks dp xs = Fin w \<and> 1 \<le> w)
      \<and> ((\<forall>e\<in>set xs. t e = t (hd xs)) \<longrightarrow> weeks dp xs = Fin 1)"
    if ne: "xs \<noteq> []" and v: "\<forall>e\<in>set xs. dp (date e) = Some (t e) \<and> \<bar>t e\<bar> \<le> 2 ^ 52"
  proof -
    define d where "d = Max (t ` set xs) - Min (t ` set xs)"
    have w: "weeks dp xs = fadd (fl (of_int d / 604800000)) (Fin 1)"
      unfolding d_def using ne v by (rule weeks_valid)
    have fin: "finite (t ` set xs)" "t ` set xs \<noteq> {}" using ne by simp_all
    have "Min (t ` set xs) \<in> t ` set xs" using fin by (rule Min_in)
    then have mn: "\<bar>Min (t ` set xs)\<bar> \<le> 2 ^ 52" using v by auto
    have "Max (t ` set xs) \<in> t ` set xs" using fin by (rule Max_in)
    then have mx: "\<bar>Max (t ` set xs)\<bar> \<le> 2 ^ 52" using v by auto
    have "Min (t ` set xs) \<le> Max (t ` set xs)" using fin by (simp add: Min_le_iff)
    then have d0: "0 \<le> d" by (simp add: d_def)
    have d1: "d \<le> 2 ^ 53" using mn mx by (simp add: d_def)
    have 1: "avgWeeklySpend dp xs = fdiv (totalSpend xs) (weeks dp xs)"
      by (simp add: avgWeeklySpend_def)
    have "(of_int d :: rat) / of_int msPerDay / 7 = of_int d / 604800000"
      by (simp add: msPerDay_def)
    then have 2: "weeks dp xs = fadd (fl (of_int d / of_int msPerDay / 7)) (Fin 1)"
      using w by (simp only:)
    have 3: "\<exists>w. weeks dp xs = Fin w \<and> 1 \<le> w"
      unfolding w using d0 d1 by (rule week_span_ge_1)
    have 4: "weeks dp xs = Fin 1" if same: "\<forall>e\<in>set xs. t e = t (hd xs)"
    proof -
      have "t ` set xs = {t (hd xs)}" using same ne by (cases xs) auto
      then have "d = 0" by (simp add: d_def)
      then show ?thesis using w by simp
    qed
    from 1 2 3 4 show ?thesis unfolding d_def by blast
  qed
  have shown: "toFixed2 (Fin 150) = ''150.00''" "toFixed2 (Fin 75) = ''75.00''"
    by (simp_all add: toFixed2_def Let_def)
  have "totalSpendEl (updateInsights Date_parse_date_only
        [rec 1 100 ''2024-01-01'' ''Food'', rec 2 50 ''2024-01-08'' ''Food'']) = ''150.00''"
    "avgSpendEl (updateInsights Date_parse_date_only
        [rec 1 100 ''2024-01-01'' ''Food'', rec 2 50 ''2024-01-08'' ''Food'']) = ''75.00''"
    using example_insights by (simp_all add: updateInsights_def shown)
  with general example_insights show ?thesis by blast
qed

theorem avgWeeklySpend_week_span_witness:
  "(\<exists>w. weeks Date_parse_date_only
           [rec 1 100 ''2024-01-01'' ''Food'', rec 2 50 ''2024-01-01'' ''Rent''] = Fin w \<and> 1 \<le> w)
   \<and> weeks Date_parse_date_only
        [rec 1 100 ''2024-01-01'' ''Food'', rec 2 50 ''2024-01-01'' ''Rent''] = Fin 1"
  using avgWeeklySpend_week_span[of "[rec 1 100 ''2024-01-01'' ''Food'', rec 2 50 ''2024-01-01'' ''Rent'']"
      Date_parse_date_only "\<lambda>e. the (Date_parse_date_only (date e))"]
  by (simp add: rec_def Date_parse_2024_01_01)

subsection \<open>Category totals\<close>

lemma map_fst_obj_set:
  "map fst (obj_set obj k v) = (if k \<in> set (map fst obj) then map fst obj else map fst obj @ [k])"
  by (auto simp: obj_set_def split: prod.splits)

lemma map_of_replace_other:
  "k' \<noteq> k \<Longrightarrow>
   map_of (map (\<lambda>(k', v'). if k' = k then (k', v) else (k', v')) obj) k' = map_of obj k'"
  by (induction obj) auto

lemma map_of_replace_same:
  "k \<in> fst ` set obj \<Longrightarrow>
   map_of (map (\<lambda>(k', v'). if k' = k then (k', v) else (k', v')) obj) k = Some v"
  by (induction obj) auto

lemma map_of_obj_set: "map_of (obj_set obj k v) = (map_of obj)(k \<mapsto> v)"
proof (cases "k \<in> set (map fst obj)")
  case True
  then show ?thesis
    by (auto simp: obj_set_def map_of_replace_other map_of_replace_same fun_eq_iff)
next
  case False
  then have "map_of obj k = None" by (simp add: map_of_eq_None_iff)
  then show ?thesis using False
    by (auto simp: obj_set_def map_add_def fun_eq_iff split: option.splits)
qed

lemma fadd_Fin_not_NaN: "x \<noteq> NaN \<Longrightarrow> fadd x (Fin a) \<noteq> NaN"
  by (cases x) (auto simp: fl_def Let_def)

lemma totalSpend_snoc: "totalSpend (xs @ [e]) = fadd (totalSpend xs) (amount e)"
  by (simp add: totalSpend_def)

lemma totalSpend_not_NaN: "\<forall>e\<in>set xs. \<exists>q. amount e = Fin q \<Longrightarrow> totalSpend xs \<noteq> NaN"
proof (induction xs rule: rev_induct)
  case Nil
  then show ?case by (simp add: totalSpend_def)
next
  case (snoc e xs)
  then obtain q where "amount e = Fin q" by auto
  moreover have "totalSpend xs \<noteq> NaN" using snoc by simp
  ultimately show ?case by (simp add: totalSpend_snoc fadd_Fin_not_NaN)
qed

lemma categorySpends_snoc:
  "categorySpends (xs @ [e]) =
     obj_set (categorySpends xs) (category e)
       (fadd (case obj_get (categorySpends xs) (category e) of
                None \<Rightarrow> Fin 0 | Some v \<Rightarrow> if truthy v then v else Fin 0)
             (amount e))"
  by (simp add: categorySpends_def)

lemma categorySpends_keys:
  "distinct (map fst (categorySpends xs)) \<and> set (map fst (categorySpends xs)) = category ` set xs"
proof (induction xs rule: rev_induct)
  case Nil
  then show ?case by (simp add: categorySpends_def)
next
  case (snoc e xs)
  then show ?case by (auto simp: categorySpends_snoc map_fst_obj_set)
qed

lemma categorySpends_total:
  assumes "\<forall>e\<in>set xs. \<exists>q. amount e = Fin q"
  shows "obj_get (categorySpends xs) c
         = (if c \<in> category ` set xs then Some (totalSpend (filter (\<lambda>e. category e = c) xs)) else None)"
  using assms
proof (induction xs arbitrary: c rule: rev_induct)
  case Nil
  then show ?case by (simp add: categorySpends_def obj_get_def)
next
  case (snoc e xs)
  have IH: "obj_get (categorySpends xs) k
         = (if k \<in> category ` set xs then Some (totalSpend (filter (\<lambda>e. category e = k) xs)) else None)" for k
    using snoc by simp
  have fin: "\<forall>x\<in>set (filter (\<lambda>x. category x = category e) xs). \<exists>q. amount x = Fin q"
    using snoc.prems by simp
  have nn: "totalSpend (filter (\<lambda>x. category x = category e) xs) \<noteq> NaN"
    using fin by (rule totalSpend_not_NaN)
  have prev: "(case obj_get (categorySpends xs) (category e) of
                None \<Rightarrow> Fin 0 | Some v \<Rightarrow> if truthy v then v else Fin 0)
              = totalSpend (filter (\<lambda>x. category x = category e) xs)"
  proof (cases "category e \<in> category ` set xs")
    case True
    then have "obj_get (categorySpends xs) (category e)
        = Some (totalSpend (filter (\<lambda>x. category x = category e) xs))"
      by (simp add: IH)
    then show ?thesis using nn
      by (cases "totalSpend (filter (\<lambda>x. category x = category e) xs)") auto
  next
    case False
    then have "\<forall>x\<in>set xs. category x \<noteq> category e" by (metis imageI)
    then have "filter (\<lambda>x. category x = category e) xs = []"
      by (simp add: filter_empty_conv)
    then show ?thesis using False by (simp add: IH totalSpend_def)
  qed
  show ?case
  proof (cases "c = category e")
    case True
    then show ?thesis
      using prev by (simp add: obj_get_def categorySpends_snoc map_of_obj_set totalSpend_snoc)
  next
    case False
    then show ?thesis
      using IH[of c] by (simp add: obj_get_def categorySpends_snoc map_of_obj_set)
  qed
qed

lemma Object_keys_set: "set (Object_keys obj) = set (map fst obj)"
  by (auto simp: Object_keys_def Let_def)

subsection \<open>The reduction that picks the top category\<close>

lemma pick_last_max:
  assumes tr: "\<And>x y z. x \<in> D \<Longrightarrow> y \<in> D \<Longrightarrow> z \<in> D \<Longrightarrow> R x y \<Longrightarrow> R y z \<Longrightarrow> R x z"
    and nt: "\<And>x y z. x \<in> D \<Longrightarrow> y \<in> D \<Longrightarrow> z \<in> D \<Longrightarrow> \<not> R x y \<Longrightarrow> \<not> R y z \<Longrightarrow> \<not> R x z"
    and D: "set (a # ks) \<subseteq> D"
  shows "\<exists>pre post. a # ks = pre @ foldl (\<lambda>a b. if R a b then a else b) a ks # post
           \<and> (\<forall>x\<in>set pre. \<not> R x (foldl (\<lambda>a b. if R a b then a else b) a ks))
           \<and> (\<forall>x\<in>set post. R (foldl (\<lambda>a b. if R a b then a else b) a ks) x)"
  using D
proof (induction ks rule: rev_induct)
  case Nil
  have "[a] = [] @ a # []" by simp
  then show ?case by force
next
  case (snoc k ks)
  define r where "r = foldl (\<lambda>a b. if R a b then a else b) a ks"
  from snoc obtain pre post where
    sp: "a # ks = pre @ r # post" and
    le: "\<forall>x\<in>set pre. \<not> R x r" and
    gt: "\<forall>x\<in>set post. R r x"
    unfolding r_def by auto
  have inD: "set pre \<subseteq> D" "set post \<subseteq> D" "r \<in> D" "k \<in> D"
  proof -
    have "set (a # ks) = set pre \<union> {r} \<union> set post" unfolding sp by auto
    then show "set pre \<subseteq> D" "set post \<subseteq> D" "r \<in> D" "k \<in> D" using snoc.prems by auto
  qed
  show ?case
  proof (cases "R r k")
    case True
    then have res: "foldl (\<lambda>a b. if R a b then a else b) a (ks @ [k]) = r" by (simp add: r_def)
    have "a # ks @ [k] = pre @ r # (post @ [k])" using sp by simp
    moreover have "\<forall>x\<in>set (post @ [k]). R r x" using gt True by simp
    ultimately show ?thesis unfolding res using le by blast
  next
    case False
    then have res: "foldl (\<lambda>a b. if R a b then a else b) a (ks @ [k]) = k" by (simp add: r_def)
    have "a # ks @ [k] = (a # ks) @ k # []" by simp
    moreover have "\<forall>x\<in>set (a # ks). \<not> R x k"
    proof
      fix x assume "x \<in> set (a # ks)"
      then consider "x \<in> set pre" | "x = r" | "x \<in> set post" unfolding sp by auto
      then show "\<not> R x k"
      proof cases
        case 1
        then have "\<not> R x r" "x \<in> D" using le inD by auto
        then show ?thesis using nt[of x r k] False inD by blast
      next
        case 2
        then show ?thesis using False by simp
      next
        case 3
        then have "R r x" "x \<in> D" using gt inD by auto
        then show ?thesis using tr[of r x k] False inD by blast
      qed
    qed
    ultimately show ?thesis unfolding res by (metis empty_iff list.set(1))
  qed
qed

lemma fgt_trans: "fgt x y \<Longrightarrow> fgt y z \<Longrightarrow> fgt x z"
  by (cases x; cases y; cases z) auto

lemma fgt_negtrans:
  "x \<noteq> NaN \<Longrightarrow> y \<noteq> NaN \<Longrightarrow> z \<noteq> NaN \<Longrightarrow> \<not> fgt x y \<Longrightarrow> \<not> fgt y z \<Longrightarrow> \<not> fgt x z"
  by (cases x; cases y; cases z) auto

lemma fgt_irrefl: "\<not> fgt x x"
  by (cases x) auto


text \<open>
  C3 (amended).  For a non-empty list of records with finite amounts (and categories that
  are no member names of \<open>Object.prototype\<close>), the keys of the category totals are the
  categories of the records, each total is the double-precision sum of the amounts of that
  category, and the top category is the last key, in the order of \<open>Object.keys\<close>, whose
  total is maximal: no key before it has a greater total, and every key after it has a
  smaller one.
\<close>

theorem highestCategory_last_maximum:
  assumes "xs \<noteq> []"
    and "\<forall>e\<in>set xs. \<exists>q. amount e = Fin q"
    and "\<forall>e\<in>set xs. category e \<notin> set inherited_keys"
  shows "set (Object_keys (categorySpends xs)) = category ` set xs
    \<and> (\<forall>k\<in>category ` set xs.
          obj_get (categorySpends xs) k = Some (totalSpend (filter (\<lambda>e. category e = k) xs)))
    \<and> (\<exists>pre post.
          Object_keys (categorySpends xs) = pre @ highestCategory xs # post
          \<and> (\<forall>k\<in>set pre. \<not> fgt (totalSpend (filter (\<lambda>e. category e = k) xs))
                                   (totalSpend (filter (\<lambda>e. category e = highestCategory xs) xs)))
          \<and> (\<forall>k\<in>set post. fgt (totalSpend (filter (\<lambda>e. category e = highestCategory xs) xs))
                                  (totalSpend (filter (\<lambda>e. category e = k) xs))))"
proof -
  define cs where "cs = categorySpends xs"
  define keys where "keys = Object_keys cs"
  define spend where "spend k = totalSpend (filter (\<lambda>e. category e = k) xs)" for k
  define R where "R a b = js_gt (obj_get cs a) (obj_get cs b)" for a b
  have ks: "set keys = category ` set xs"
    unfolding keys_def cs_def Object_keys_set using categorySpends_keys[of xs] by simp
  have get: "obj_get cs k = (if k \<in> set keys then Some (spend k) else None)" for k
    unfolding cs_def spend_def ks using assms(2) by (rule categorySpends_total)
  have nn: "spend k \<noteq> NaN" for k
    unfolding spend_def using assms(2) by (intro totalSpend_not_NaN) simp
  have RD: "R a b = fgt (spend a) (spend b)" if "a \<in> set keys" "b \<in> set keys" for a b
    using that by (simp add: R_def get)
  have tr: "R x y \<Longrightarrow> R y z \<Longrightarrow> R x z" if "x \<in> set keys" "y \<in> set keys" "z \<in> set keys" for x y z
    using that fgt_trans[of "spend x" "spend y" "spend z"] by (simp add: RD)
  have nt: "\<not> R x y \<Longrightarrow> \<not> R y z \<Longrightarrow> \<not> R x z"
    if "x \<in> set keys" "y \<in> set keys" "z \<in> set keys" for x y z
    using that fgt_negtrans[OF nn nn nn, of x y z] by (simp add: RD)
  have hc: "highestCategory xs = foldl (\<lambda>a b. if R a b then a else b) ''-'' keys"
    by (simp add: highestCategory_def Let_def cs_def keys_def R_def)
  have "keys \<noteq> []" using ks assms(1) by auto
  then obtain k1 ks' where keys: "keys = k1 # ks'" by (cases keys) auto
  have "\<exists>pre post. keys = pre @ highestCategory xs # post
          \<and> (\<forall>k\<in>set pre. \<not> R k (highestCategory xs))
          \<and> (\<forall>k\<in>set post. R (highestCategory xs) k)"
  proof (cases "''-'' \<in> set keys")
    case False
    then have "\<not> R ''-'' k1" by (simp add: R_def get)
    then have "highestCategory xs = foldl (\<lambda>a b. if R a b then a else b) k1 ks'"
      by (simp add: hc keys)
    moreover have "\<exists>pre post. k1 # ks' = pre @ foldl (\<lambda>a b. if R a b then a else b) k1 ks' # post
           \<and> (\<forall>x\<in>set pre. \<not> R x (foldl (\<lambda>a b. if R a b then a else b) k1 ks'))
           \<and> (\<forall>x\<in>set post. R (foldl (\<lambda>a b. if R a b then a else b) k1 ks') x)"
      using tr nt by (rule pick_last_max[where D = "set keys"]) (simp_all add: keys)
    ultimately show ?thesis by (simp add: keys)
  next
    case True
    have "\<exists>pre post. ''-'' # keys = pre @ foldl (\<lambda>a b. if R a b then a else b) ''-'' keys # post
           \<and> (\<forall>x\<in>set pre. \<not> R x (foldl (\<lambda>a b. if R a b then a else b) ''-'' keys))
           \<and> (\<forall>x\<in>set post. R (foldl (\<lambda>a b. if R a b then a else b) ''-'' keys) x)"
      using tr nt by (rule pick_last_max[where D = "set keys"]) (simp_all add: True)
    then obtain pre post where
      sp: "''-'' # keys = pre @ highestCategory xs # post" and
      le: "\<forall>x\<in>set pre. \<not> R x (highestCategory xs)" and
      gt: "\<forall>x\<in>set post. R (highestCategory xs) x"
      unfolding hc by blast
    show ?thesis
    proof (cases pre)
      case Nil
      then have "highestCategory xs = ''-''" "post = keys" using sp by simp_all
      then have "R ''-'' ''-''" using gt True by simp
      then show ?thesis using True by (simp add: RD fgt_irrefl)
    next
      case (Cons p pre')
      then have "keys = pre' @ highestCategory xs # post" using sp by simp
      moreover have "\<forall>x\<in>set pre'. \<not> R x (highestCategory xs)" using le Cons by simp
      ultimately show ?thesis using gt by blast
    qed
  qed
  then obtain pre post where
    sp: "keys = pre @ highestCategory xs # post" and
    le: "\<forall>k\<in>set pre. \<not> R k (highestCategory xs)" and
    gt: "\<forall>k\<in>set post. R (highestCategory xs) k"
    by blast
  have mem: "highestCategory xs \<in> set keys" "set pre \<subseteq> set keys" "set post \<subseteq> set keys"
    unfolding sp by auto
  have le': "\<forall>k\<in>set pre. \<not> fgt (spend k) (spend (highestCategory xs))"
  proof
    fix k assume k: "k \<in> set pre"
    then have "k \<in> set keys" using mem by blast
    then have "R k (highestCategory xs) = fgt (spend k) (spend (highestCategory xs))"
      using mem(1) by (rule RD)
    then show "\<not> fgt (spend k) (spend (highestCategory xs))" using le k by simp
  qed
  have gt': "\<forall>k\<in>set post. fgt (spend (highestCategory xs)) (spend k)"
  proof
    fix k assume k: "k \<in> set post"
    then have "k \<in> set keys" using mem by blast
    with mem(1) have "R (highestCategory xs) k = fgt (spend (highestCategory xs)) (spend k)"
      by (rule RD)
    then show "fgt (spend (highestCategory xs)) (spend k)" using gt k by simp
  qed
  have 1: "set (Object_keys (categorySpends xs)) = category ` set xs"
    using ks by (simp add: keys_def cs_def)
  have 2: "\<forall>k\<in>category ` set xs.
          obj_get (categorySpends xs) k = Some (totalSpend (filter (\<lambda>e. category e = k) xs))"
    using get ks by (simp add: cs_def spend_def)
  from sp le' gt' have 3: "\<exists>pre post.
          Object_keys (categorySpends xs) = pre @ highestCategory xs # post
          \<and> (\<forall>k\<in>set pre. \<not> fgt (totalSpend (filter (\<lambda>e. category e = k) xs))
                                   (totalSpend (filter (\<lambda>e. category e = highestCategory xs) xs)))
          \<and> (\<forall>k\<in>set post. fgt (totalSpend (filter (\<lambda>e. category e = highestCategory xs) xs))
                                  (totalSpend (filter (\<lambda>e. category e = k) xs)))"
    unfolding keys_def cs_def spend_def by blast
  from 1 2 3 show ?thesis by blast
qed

theorem highestCategory_last_maximum_witness:
  "set (Object_keys (categorySpends
      [rec 1 100 ''2024-01-01'' ''Food'', rec 2 100 ''2024-01-08'' ''Rent'']))
    = {''Food'', ''Rent''}
   \<and> obj_get (categorySpends [rec 1 100 ''2024-01-01'' ''Food'', rec 2 100 ''2024-01-08'' ''Rent''])
        ''Rent''
      = Some (totalSpend [rec 2 100 ''2024-01-08'' ''Rent''])"
  using highestCategory_last_maximum[of "[rec 1 100 ''2024-01-01'' ''Food'', rec 2 100 ''2024-01-08'' ''Rent'']"]
  by (simp add: rec_def inherited_keys_def)

text \<open>
  The claim as stated fails on a tie: with 100 spent on Food and then 100 on Rent, the keys
  are Food, Rent, both totals are 100, and the top category is Rent, the last of the two,
  not Food, the first to reach the maximum.
\<close>

theorem highestCategory_tie_counterexample:
  "Object_keys (categorySpends [rec 1 100 ''2024-01-01'' ''Food'', rec 2 100 ''2024-01-08'' ''Rent''])
     = [''Food'', ''Rent'']
   \<and> obj_get (categorySpends [rec 1 100 ''2024-01-01'' ''Food'', rec 2 100 ''2024-01-08'' ''Rent''])
        ''Food'' = Some (Fin 100)
   \<and> obj_get (categorySpends [rec 1 100 ''2024-01-01'' ''Food'', rec 2 100 ''2024-01-08'' ''Rent''])
        ''Rent'' = Some (Fin 100)
   \<and> highestCategory [rec 1 100 ''2024-01-01'' ''Food'', rec 2 100 ''2024-01-08'' ''Rent'']
     = ''Rent''"
  by (simp add: highestCategory_def categorySpends_def obj_get_def obj_set_def Object_keys_def
      array_index_def is_digit_def rec_def)

section \<open>Filtering and sorting\<close>

subsection \<open>The calendar\<close>

lemma MonthFromTime_range: "0 \<le> MonthFromTime t \<and> MonthFromTime t \<le> 11"
  by (simp add: MonthFromTime_def Let_def)

lemma Day_TimeWithinDay: "Day t * msPerDay + TimeWithinDay t = t"
  by (simp add: Day_def TimeWithinDay_def)

lemma MakeDay_same_month:
  "MakeDay (YearFromTime t) (MonthFromTime t) (DateFromTime t + k) = Day t + k"
proof -
  have "MonthFromTime t div 12 = 0" "MonthFromTime t mod 12 = MonthFromTime t"
    using MonthFromTime_range[of t] by simp_all
  then show ?thesis
    by (simp add: MakeDay_def DateFromTime_def DayWithinYear_def InLeapYear_def)
qed

lemma MakeDate_days_before: "MakeDate (Day t - k) (TimeWithinDay t) = t - k * msPerDay"
proof -
  have "MakeDate (Day t - k) (TimeWithinDay t) = (Day t * msPerDay + TimeWithinDay t) - k * msPerDay"
    by (simp add: MakeDate_def algebra_simps)
  then show ?thesis by (simp only: Day_TimeWithinDay)
qed

text \<open>\<open>setDate\<close> with the day of the month less seven moves the local time back seven days.\<close>

lemma oneWeekAgo_eq: "oneWeekAgo tz now = one_week_before tz now"
proof -
  define lt where "lt = LocalTime tz now"
  have "MakeDay (YearFromTime lt) (MonthFromTime lt) (DateFromTime lt - 7) = Day lt - 7"
    using MakeDay_same_month[of lt "- 7"] by simp
  then have "MakeDate (MakeDay (YearFromTime lt) (MonthFromTime lt) (DateFromTime lt - 7))
                (TimeWithinDay lt) = lt - 7 * msPerDay"
    by (simp only: MakeDate_days_before)
  then show ?thesis
    by (simp add: oneWeekAgo_def setDate_def getDate_def Let_def lt_def[symmetric]
        one_week_before_def local_time_before_def)
qed

subsection \<open>The year of a time value\<close>

lemma div_bounds: "0 < k \<Longrightarrow> k * (x div k) \<le> x \<and> x < k * (x div k) + k" for x k :: int
  by (metis add.commute mult.commute pos_mod_bound mult_div_mod_eq add_less_cancel_left
      pos_mod_sign add_increasing2 order_refl le_add_same_cancel1)

lemma leap_days_bound:
  "97 * y - 191697 < 400 * ((y - 1969) div 4 - (y - 1901) div 100 + (y - 1601) div 400)"
  for y :: int
proof -
  define q4 where "q4 = (y - 1969) div 4"
  define q100 where "q100 = (y - 1901) div 100"
  define q400 where "q400 = (y - 1601) div 400"
  have 1: "y - 1969 < 4 * q4 + 4" unfolding q4_def using div_bounds[of 4 "y - 1969"] by simp
  have 2: "100 * q100 \<le> y - 1901" unfolding q100_def using div_bounds[of 100 "y - 1901"] by simp
  have 3: "y - 1601 < 400 * q400 + 400" unfolding q400_def using div_bounds[of 400 "y - 1601"] by simp
  have "97 * y - 191697 < 400 * (q4 - q100 + q400)" using 1 2 3 by (simp add: algebra_simps)
  then show ?thesis by (simp only: q4_def q100_def q400_def)
qed

lemma DayFromYear_lower: "1970 \<le> y \<Longrightarrow> 365 * (y - 1970) \<le> DayFromYear y"
proof (cases "y \<le> 1972")
  case True
  assume "1970 \<le> y"
  with True have "y = 1970 \<or> y = 1971 \<or> y = 1972" by auto
  then show ?thesis by (auto simp: DayFromYear_def)
next
  case False
  define L where "L = (y - 1969) div 4 - (y - 1901) div 100 + (y - 1601) div 400"
  have "97 * y - 191697 < 400 * L" unfolding L_def by (rule leap_days_bound)
  then have "- 400 < 400 * L" using False by simp
  then have "0 \<le> L" by simp
  then show ?thesis by (simp add: DayFromYear_def L_def)
qed

lemma DayFromYear_lower_before: "y \<le> 1970 \<Longrightarrow> 366 * (y - 1970) \<le> DayFromYear y"
proof (cases "y = 1970")
  case True
  then show ?thesis by (simp add: DayFromYear_def)
next
  case False
  assume "y \<le> 1970"
  with False have y: "y \<le> 1969" by simp
  define L where "L = (y - 1969) div 4 - (y - 1901) div 100 + (y - 1601) div 400"
  have "97 * y - 191697 < 400 * L" unfolding L_def by (rule leap_days_bound)
  then have "400 * (y - 1971) < 400 * L" using y by simp
  then have "y - 1970 \<le> L" by simp
  then show ?thesis by (simp add: DayFromYear_def L_def)
qed

lemma year_down_le: "DayFromYear (year_down d y) \<le> d"
  by (induction d y rule: year_down.induct) (subst year_down.simps, simp)

lemma year_down_greatest:
  "d < DayFromYear (y + 1) \<Longrightarrow> d < DayFromYear (year_down d y + 1)"
proof (induction d y rule: year_down.induct)
  case (1 d y)
  show ?case
  proof (cases "DayFromYear y \<le> d")
    case True
    then show ?thesis using "1.prems" by (subst year_down.simps) simp
  next
    case False
    then have "d < DayFromYear (y - 1 + 1)" by simp
    then have "d < DayFromYear (year_down d (y - 1) + 1)" using False by (rule "1.IH"[rotated])
    then show ?thesis using False by (subst year_down.simps) simp
  qed
qed

text \<open>
  \<open>YearFromTime\<close> is the year of the specification: the largest year that starts on or
  before the day of the time value.
\<close>

lemma YearFromTime_spec:
  "DayFromYear (YearFromTime t) \<le> Day t \<and> Day t < DayFromYear (YearFromTime t + 1)"
proof -
  define d where "d = Day t"
  define y0 where "y0 = 1970 + (if 0 \<le> d then d div 365 else d div 366)"
  have start: "d < DayFromYear (y0 + 1)"
  proof (cases "0 \<le> d")
    case True
    then have "0 \<le> d div 365" by (simp add: pos_imp_zdiv_nonneg_iff)
    then have "365 * (y0 + 1 - 1970) \<le> DayFromYear (y0 + 1)"
      using True by (intro DayFromYear_lower) (simp add: y0_def)
    moreover have "d < 365 * (d div 365) + 365" using div_bounds[of 365 d] by simp
    ultimately show ?thesis using True by (simp add: y0_def)
  next
    case False
    then have "d div 366 < 0" by (simp add: div_neg_pos_less0)
    then have "366 * (y0 + 1 - 1970) \<le> DayFromYear (y0 + 1)"
      using False by (intro DayFromYear_lower_before) (simp add: y0_def)
    moreover have "d < 366 * (d div 366) + 366" using div_bounds[of 366 d] by simp
    ultimately show ?thesis using False by (simp add: y0_def)
  qed
  have "YearFromTime t = year_down d y0"
    by (simp add: YearFromTime_def Let_def d_def y0_def)
  then show ?thesis
    using year_down_le[of d y0] year_down_greatest[OF start] by (simp add: d_def)
qed

subsection \<open>The calendar counted out\<close>

lemma div_step:
  "0 < k \<Longrightarrow> (x + 1) div k = x div k + (if (x + 1) mod k = 0 then 1 else 0)" for x k :: int
proof -
  assume k: "0 < k"
  define q where "q = (x + 1) div k"
  define r where "r = (x + 1) mod k"
  have x: "x + 1 = k * q + r" by (simp add: q_def r_def)
  have r: "0 \<le> r" "r < k" using k by (simp_all add: r_def)
  show ?thesis
  proof (cases "r = 0")
    case True
    have "x = k * (q - 1) + (k - 1)" using x True by (simp add: algebra_simps)
    then have "x div k = q - 1" using k by (intro int_div_pos_eq[where r = "k - 1"]) simp_all
    then show ?thesis using True by (simp add: q_def[symmetric] r_def[symmetric])
  next
    case False
    have "x = k * q + (r - 1)" using x by simp
    then have "x div k = q" using r False by (intro int_div_pos_eq[where r = "r - 1"]) simp_all
    then show ?thesis using False by (simp add: q_def[symmetric] r_def[symmetric])
  qed
qed

lemma mod_shift: "(x - k * c) mod k = x mod k" for x k c :: int
proof -
  have "(x + k * (- c)) mod k = x mod k" by (rule mod_mult_self2)
  then show ?thesis by simp
qed

lemma DaysInYear_sum:
  "DaysInYear y = 365 + (if y mod 4 = 0 then 1 else 0) - (if y mod 100 = 0 then 1 else 0)
                      + (if y mod 400 = 0 then 1 else 0)"
proof -
  have c1: "y mod 4 = 0" if "y mod 100 = 0"
  proof -
    have "(100::int) dvd y" using that by (simp add: mod_eq_0_iff_dvd)
    moreover have "(4::int) dvd 100" by simp
    ultimately have "(4::int) dvd y" by (rule dvd_trans[rotated])
    then show ?thesis by (simp add: mod_eq_0_iff_dvd)
  qed
  have c2: "y mod 100 = 0" if "y mod 400 = 0"
  proof -
    have "(400::int) dvd y" using that by (simp add: mod_eq_0_iff_dvd)
    moreover have "(100::int) dvd 400" by simp
    ultimately have "(100::int) dvd y" by (rule dvd_trans[rotated])
    then show ?thesis by (simp add: mod_eq_0_iff_dvd)
  qed
  show ?thesis using c1 c2 by (auto simp: DaysInYear_def)
qed

lemma DayFromYear_step: "DayFromYear (y + 1) = DayFromYear y + DaysInYear y"
proof -
  define a4 where "a4 = (y - 1969) div 4"
  define a100 where "a100 = (y - 1901) div 100"
  define a400 where "a400 = (y - 1601) div 400"
  define i4 where "i4 = (if y mod 4 = 0 then 1 else 0 :: int)"
  define i100 where "i100 = (if y mod 100 = 0 then 1 else 0 :: int)"
  define i400 where "i400 = (if y mod 400 = 0 then 1 else 0 :: int)"
  have m4: "(y - 1969 + 1) mod 4 = y mod 4" using mod_shift[of y 4 492] by simp
  have m100: "(y - 1901 + 1) mod 100 = y mod 100" using mod_shift[of y 100 19] by simp
  have m400: "(y - 1601 + 1) mod 400 = y mod 400" using mod_shift[of y 400 4] by simp
  have "(y - 1969 + 1) div 4 = a4 + i4"
    unfolding a4_def i4_def m4[symmetric] by (rule div_step) simp
  then have d4: "(y - 1968) div 4 = a4 + i4" by simp
  have "(y - 1901 + 1) div 100 = a100 + i100"
    unfolding a100_def i100_def m100[symmetric] by (rule div_step) simp
  then have d100: "(y - 1900) div 100 = a100 + i100" by simp
  have "(y - 1601 + 1) div 400 = a400 + i400"
    unfolding a400_def i400_def m400[symmetric] by (rule div_step) simp
  then have d400: "(y - 1600) div 400 = a400 + i400" by simp
  have e1: "DayFromYear (y + 1) = 365 * (y - 1969) + (a4 + i4) - (a100 + i100) + (a400 + i400)"
    by (simp add: DayFromYear_def d4 d100 d400)
  have e2: "DayFromYear y = 365 * (y - 1970) + a4 - a100 + a400"
    by (simp add: DayFromYear_def a4_def a100_def a400_def)
  have e3: "DaysInYear y = 365 + i4 - i100 + i400"
    unfolding i4_def i100_def i400_def by (rule DaysInYear_sum)
  show ?thesis unfolding e1 e2 e3 by (simp add: algebra_simps)
qed

lemma DaysInYear_pos: "0 < DaysInYear y"
  by (simp add: DaysInYear_def)

lemma DayFromYear_mono_nat: "DayFromYear y \<le> DayFromYear (y + int n)"
proof (induction n)
  case 0
  then show ?case by simp
next
  case (Suc n)
  have "DayFromYear (y + int (Suc n)) = DayFromYear (y + int n) + DaysInYear (y + int n)"
    using DayFromYear_step[of "y + int n"] by (simp add: algebra_simps)
  then show ?case using Suc DaysInYear_pos[of "y + int n"] by simp
qed

lemma DayFromYear_mono: "y \<le> z \<Longrightarrow> DayFromYear y \<le> DayFromYear z"
  using DayFromYear_mono_nat[of y "nat (z - y)"] by simp

lemma YearFromTime_unique:
  assumes "DayFromYear y \<le> Day t" "Day t < DayFromYear (y + 1)"
  shows "YearFromTime t = y"
proof (rule antisym)
  show "YearFromTime t \<le> y"
  proof (rule ccontr)
    assume "\<not> YearFromTime t \<le> y"
    then have "DayFromYear (y + 1) \<le> DayFromYear (YearFromTime t)"
      by (intro DayFromYear_mono) simp
    then show False using assms(2) YearFromTime_spec[of t] by simp
  qed
  show "y \<le> YearFromTime t"
  proof (rule ccontr)
    assume "\<not> y \<le> YearFromTime t"
    then have "DayFromYear (YearFromTime t + 1) \<le> DayFromYear y"
      by (intro DayFromYear_mono) simp
    then show False using assms(1) YearFromTime_spec[of t] by simp
  qed
qed

lemma year_and_day_inv:
  "DayFromYear (fst (year_and_day y r)) + snd (year_and_day y r) = DayFromYear y + r
   \<and> 0 \<le> snd (year_and_day y r)
   \<and> snd (year_and_day y r) < DaysInYear (fst (year_and_day y r))"
proof (induction y r rule: year_and_day.induct)
  case (1 y r)
  show ?case
  proof (cases "r < 0")
    case True
    have eq: "year_and_day y r = year_and_day (y - 1) (r + DaysInYear (y - 1))"
      using True by (subst year_and_day.simps) simp
    have "DayFromYear y = DayFromYear (y - 1) + DaysInYear (y - 1)"
      using DayFromYear_step[of "y - 1"] by simp
    then show ?thesis using "1.IH"(1)[OF True] unfolding eq by simp
  next
    case False
    show ?thesis
    proof (cases "DaysInYear y \<le> r")
      case True
      have eq: "year_and_day y r = year_and_day (y + 1) (r - DaysInYear y)"
        using False True by (subst year_and_day.simps) simp
      show ?thesis using "1.IH"(2)[OF False True] DayFromYear_step[of y] unfolding eq by simp
    next
      case b: False
      have eq: "year_and_day y r = (y, r)"
        using False b by (subst year_and_day.simps) simp
      show ?thesis using False b unfolding eq by simp
    qed
  qed
qed

lemma year_and_day_YearFromTime:
  "year_and_day 1970 (Day t) = (YearFromTime t, DayWithinYear t)"
proof -
  define y where "y = fst (year_and_day 1970 (Day t))"
  define r where "r = snd (year_and_day 1970 (Day t))"
  have inv: "DayFromYear y + r = Day t" "0 \<le> r" "r < DaysInYear y"
    using year_and_day_inv[of 1970 "Day t"] by (simp_all add: y_def r_def DayFromYear_def)
  have "YearFromTime t = y"
    using inv DayFromYear_step[of y] by (intro YearFromTime_unique) simp_all
  then have "(y, r) = (YearFromTime t, DayWithinYear t)"
    using inv by (simp add: DayWithinYear_def)
  then show ?thesis by (simp add: y_def r_def)
qed

lemma DayWithinYear_range:
  "0 \<le> DayWithinYear t \<and> DayWithinYear t < DaysInYear (YearFromTime t)"
  using YearFromTime_spec[of t] DayFromYear_step[of "YearFromTime t"]
  by (simp add: DayWithinYear_def)

lemmas month_and_day_steps =
  month_and_day.simps[of _ 1] month_and_day.simps[of _ 2] month_and_day.simps[of _ 3]
  month_and_day.simps[of _ 4] month_and_day.simps[of _ 5] month_and_day.simps[of _ 6]
  month_and_day.simps[of _ 7] month_and_day.simps[of _ 8] month_and_day.simps[of _ 9]
  month_and_day.simps[of _ 10] month_and_day.simps[of _ 11] month_and_day.simps[of _ 12]

lemma month_and_day_count:
  assumes "0 \<le> d" "d < 365 + l" "l = (if DaysInYear y = 366 then 1 else 0)"
  shows "month_and_day y 1 d =
     (if d < 31 then (1, d)
      else if d < 59 + l then (2, d - 31)
      else if d < 90 + l then (3, d - (59 + l))
      else if d < 120 + l then (4, d - (90 + l))
      else if d < 151 + l then (5, d - (120 + l))
      else if d < 181 + l then (6, d - (151 + l))
      else if d < 212 + l then (7, d - (181 + l))
      else if d < 243 + l then (8, d - (212 + l))
      else if d < 273 + l then (9, d - (243 + l))
      else if d < 304 + l then (10, d - (273 + l))
      else if d < 334 + l then (11, d - (304 + l))
      else (12, d - (334 + l)))"
proof (cases "DaysInYear y = 366")
  case True
  then show ?thesis using assms
    by (simp add: month_and_day_steps DaysInMonth_def)
next
  case False
  then show ?thesis using assms
    by (simp add: month_and_day_steps DaysInMonth_def)
qed


text \<open>The counted calendar is the calendar of the specification.\<close>

lemma civil_of_day_eq:
  "civil_of_day (Day t) = (YearFromTime t, MonthFromTime t + 1, DateFromTime t)"
proof -
  define d where "d = DayWithinYear t"
  define l where "l = InLeapYear t"
  have l: "l = (if DaysInYear (YearFromTime t) = 366 then 1 else 0)"
    by (simp add: l_def InLeapYear_def)
  have range: "0 \<le> d" "d < 365 + l"
    using DayWithinYear_range[of t] by (auto simp: d_def l DaysInYear_def split: if_splits)
  have "month_and_day (YearFromTime t) 1 d = (MonthFromTime t + 1, DateFromTime t - 1)"
    unfolding month_and_day_count[OF range l]
    by (simp add: MonthFromTime_def DateFromTime_def month_start_def Let_def
        d_def[symmetric] l_def[symmetric])
  then show ?thesis
    by (simp add: civil_of_day_def year_and_day_YearFromTime d_def)
qed

lemma month_start_December: "334 + (if DaysInYear y = 366 then 1 else 0) + 31 = DaysInYear y"
  by (simp add: DaysInYear_def)

text \<open>
  The day that \<open>setMonth\<close> makes of the month before: as many days back as the previous
  calendar month has.
\<close>

lemma MakeDay_month_before:
  "MakeDay (YearFromTime t) (MonthFromTime t - 1) (DateFromTime t)
     = Day t - days_in_previous_month (Day t)"
proof (cases "MonthFromTime t = 0")
  case True
  have "DayFromYear (YearFromTime t) = DayFromYear (YearFromTime t - 1) + DaysInYear (YearFromTime t - 1)"
    using DayFromYear_step[of "YearFromTime t - 1"] by simp
  then show ?thesis
    using True month_start_December[of "YearFromTime t - 1"]
    by (simp add: days_in_previous_month_def civil_of_day_eq MakeDay_def DateFromTime_def
        month_start_def DaysInMonth_def DayWithinYear_def Let_def)
next
  case False
  then have "MonthFromTime t = 1 \<or> MonthFromTime t = 2 \<or> MonthFromTime t = 3
      \<or> MonthFromTime t = 4 \<or> MonthFromTime t = 5 \<or> MonthFromTime t = 6
      \<or> MonthFromTime t = 7 \<or> MonthFromTime t = 8 \<or> MonthFromTime t = 9
      \<or> MonthFromTime t = 10 \<or> MonthFromTime t = 11"
    using MonthFromTime_range[of t] by arith
  then show ?thesis
    by (elim disjE) (simp_all add: days_in_previous_month_def civil_of_day_eq MakeDay_def DateFromTime_def
        month_start_def DaysInMonth_def DayWithinYear_def InLeapYear_def Let_def)
qed

lemma oneMonthAgo_eq: "oneMonthAgo tz now = one_calendar_month_before tz now"
proof -
  define lt where "lt = LocalTime tz now"
  have "MakeDate (MakeDay (YearFromTime lt) (MonthFromTime lt - 1) (DateFromTime lt))
                (TimeWithinDay lt) = lt - days_in_previous_month (Day lt) * msPerDay"
    by (simp only: MakeDay_month_before MakeDate_days_before)
  then show ?thesis
    by (simp add: oneMonthAgo_def setMonth_def getMonth_def Let_def lt_def[symmetric]
        one_calendar_month_before_def local_time_before_def)
qed












subsection \<open>Sorting\<close>



lemma date_compare_valid:
  "dp (date a) = Some ta \<Longrightarrow> dp (date b) = Some tb \<Longrightarrow>
   fgt (date_compare dp a b) (Fin 0) \<longleftrightarrow> ta < tb"
proof -
  assume "dp (date a) = Some ta" "dp (date b) = Some tb"
  then have "date_compare dp a b = fl (of_int tb - of_int ta)"
    by (simp add: date_compare_def fsub_def)
  then have "date_compare dp a b = fl (of_int (tb - ta))"
    by (simp only: of_int_diff)
  then show ?thesis by (simp only: fgt_fl_int) simp
qed

lemma sort_insert_insort_key:
  assumes "dp (date x) = Some (t x)" "\<forall>e\<in>set ys. dp (date e) = Some (t e)"
  shows "sort_insert (date_compare dp) x ys = insort_key (\<lambda>e. - t e) x ys"
  using assms(2)
proof (induction ys)
  case Nil
  then show ?case by simp
next
  case (Cons y ys)
  have "fgt (date_compare dp x y) (Fin 0) \<longleftrightarrow> t x < t y"
    using assms(1) Cons.prems by (intro date_compare_valid) simp_all
  then show ?case using Cons by auto
qed

lemma sorted_by_sort_key:
  assumes "\<forall>e\<in>set xs. dp (date e) = Some (t e)"
  shows "sorted_by (date_compare dp) xs = sort_key (\<lambda>e. - t e) xs"
  using assms
proof (induction xs)
  case Nil
  then show ?case by (simp add: sorted_by_def)
next
  case (Cons x xs)
  have IH: "sorted_by (date_compare dp) xs = sort_key (\<lambda>e. - t e) xs" using Cons by simp
  have "sorted_by (date_compare dp) (x # xs) = sort_insert (date_compare dp) x (sort_key (\<lambda>e. - t e) xs)"
    using IH by (simp add: sorted_by_def)
  also have "\<dots> = insort_key (\<lambda>e. - t e) x (sort_key (\<lambda>e. - t e) xs)"
    using Cons.prems by (intro sort_insert_insort_key) simp_all
  finally show ?case by simp
qed

subsection \<open>applyFilters\<close>

lemma applyFilters_effect:
  assumes "expenses st < next_ref st"
  shows "tableRows (applyFilters dp tz now st)
           = sorted_by (date_compare dp)
               (filter (criteria_spec dp tz now (filterCategorySelect st) (filterTimeSelect st))
                  (ledger st))"
    and "heap (applyFilters dp tz now st) (expenses st) = heap st (expenses st)"
    and "expenses (applyFilters dp tz now st) = expenses st"
    and "next_ref st \<le> next_ref (applyFilters dp tz now st)"
    and "localStorage (applyFilters dp tz now st) = localStorage st"
    and "insights (applyFilters dp tz now st)
           = updateInsights dp (tableRows (applyFilters dp tz now st))"
    and "alerts (applyFilters dp tz now st) = alerts st"
  using assms
  by (auto simp: applyFilters_def spread_def Array_filter_def alloc_def Array_sort_def
      renderExpenses_def Let_def ledger_def criteria_spec_def oneWeekAgo_eq oneMonthAgo_eq
      intro!: arg_cong[where f = "sorted_by (date_compare dp)"] filter_cong)







text \<open>
  C4.  When every date of the ledger parses, the rows that \<open>applyFilters\<close> shows are in
  descending order of date, and the rows of any one date are the matching records of that
  date in the order in which the ledger holds them.
\<close>

theorem applyFilters_sorted_stable:
  assumes "expenses st < next_ref st"
    and "\<forall>e\<in>set (ledger st). dp (date e) = Some (t e)"
  shows "sorted_wrt (\<lambda>a b. t b \<le> t a) (tableRows (applyFilters dp tz now st))
    \<and> (\<forall>d. filter (\<lambda>e. t e = d) (tableRows (applyFilters dp tz now st))
            = filter (\<lambda>e. t e = d)
                (filter (criteria_spec dp tz now (filterCategorySelect st) (filterTimeSelect st))
                   (ledger st)))"
proof -
  define ys where
    "ys = filter (criteria_spec dp tz now (filterCategorySelect st) (filterTimeSelect st)) (ledger st)"
  have "\<forall>e\<in>set ys. dp (date e) = Some (t e)" using assms(2) by (simp add: ys_def)
  then have "sorted_by (date_compare dp) ys = sort_key (\<lambda>e. - t e) ys"
    by (rule sorted_by_sort_key)
  then have rows: "tableRows (applyFilters dp tz now st) = sort_key (\<lambda>e. - t e) ys"
    using applyFilters_effect(1)[OF assms(1), of dp tz now] by (simp add: ys_def)
  have "sorted (map (\<lambda>e. - t e) (sort_key (\<lambda>e. - t e) ys))" by (rule sorted_sort_key)
  then have 1: "sorted_wrt (\<lambda>a b. t b \<le> t a) (tableRows (applyFilters dp tz now st))"
    by (simp add: rows sorted_map)
  have 2: "filter (\<lambda>e. t e = d) (tableRows (applyFilters dp tz now st)) = filter (\<lambda>e. t e = d) ys" for d
    using sort_key_stable[of "\<lambda>e. - t e" "- d" ys] by (simp add: rows)
  from 1 2 show ?thesis unfolding ys_def by blast
qed

theorem applyFilters_sorted_stable_witness:
  "sorted_wrt (\<lambda>a b. the (Date_parse_date_only (date b)) \<le> the (Date_parse_date_only (date a)))
     (tableRows (applyFilters Date_parse_date_only UTC_zone 1704844800000
        (fresh\<lparr>heap := (heap fresh)(0 := [rec 1 100 ''2024-01-01'' ''Food'',
                                          rec 2 50 ''2024-01-08'' ''Food'',
                                          rec 3 100 ''2024-01-08'' ''Rent''])\<rparr>)))
   \<and> filter (\<lambda>e. the (Date_parse_date_only (date e)) = 1704672000000)
       (tableRows (applyFilters Date_parse_date_only UTC_zone 1704844800000
          (fresh\<lparr>heap := (heap fresh)(0 := [rec 1 100 ''2024-01-01'' ''Food'',
                                            rec 2 50 ''2024-01-08'' ''Food'',
                                            rec 3 100 ''2024-01-08'' ''Rent''])\<rparr>)))
     = [rec 2 50 ''2024-01-08'' ''Food'', rec 3 100 ''2024-01-08'' ''Rent'']"
  using applyFilters_sorted_stable[of
      "fresh\<lparr>heap := (heap fresh)(0 := [rec 1 100 ''2024-01-01'' ''Food'',
                                        rec 2 50 ''2024-01-08'' ''Food'',
                                        rec 3 100 ''2024-01-08'' ''Rent''])\<rparr>"
      Date_parse_date_only "\<lambda>e. the (Date_parse_date_only (date e))" UTC_zone 1704844800000]
  by (simp add: fresh_def ledger_def rec_def criteria_spec_def Date_parse_2024_01_01
      Date_parse_2024_01_08)

text \<open>
  C9.  In a state whose \<open>expenses\<close> variable refers to an allocated array, \<open>applyFilters\<close>
  leaves that array as it was, the same records in the same order, and the variable still
  refers to it: the copy is what gets filtered and sorted.
\<close>

theorem applyFilters_ledger_unchanged:
  assumes "expenses st < next_ref st"
  shows "ledger (applyFilters dp tz now st) = ledger st
    \<and> expenses (applyFilters dp tz now st) = expenses st"
  using applyFilters_effect(2,3)[OF assms, of dp tz now] by (simp add: ledger_def)

theorem applyFilters_ledger_unchanged_witness:
  "ledger (applyFilters Date_parse_date_only UTC_zone 1704844800000
      (fresh\<lparr>heap := (heap fresh)(0 := [rec 1 100 ''2024-01-01'' ''Food'',
                                        rec 2 50 ''2024-01-08'' ''Food'',
                                        rec 3 100 ''2024-01-08'' ''Rent''])\<rparr>))
   = [rec 1 100 ''2024-01-01'' ''Food'', rec 2 50 ''2024-01-08'' ''Food'',
      rec 3 100 ''2024-01-08'' ''Rent'']"
proof -
  define st where "st = fresh\<lparr>heap := (heap fresh)(0 := [rec 1 100 ''2024-01-01'' ''Food'',
                                        rec 2 50 ''2024-01-08'' ''Food'',
                                        rec 3 100 ''2024-01-08'' ''Rent''])\<rparr>"
  have wf: "expenses st < next_ref st" by (simp add: st_def fresh_def)
  have "ledger st = [rec 1 100 ''2024-01-01'' ''Food'', rec 2 50 ''2024-01-08'' ''Food'',
      rec 3 100 ''2024-01-08'' ''Rent'']"
    by (simp add: st_def ledger_def fresh_def)
  with applyFilters_ledger_unchanged[OF wf, of Date_parse_date_only UTC_zone 1704844800000]
  show ?thesis unfolding st_def by simp
qed

section \<open>Submitting the form\<close>

lemma truthy_iff: "truthy v \<longleftrightarrow> v \<noteq> Fin 0 \<and> v \<noteq> NaN"
  by (cases v) auto

lemma submit_rejected:
  "rejected sub \<Longrightarrow>
   submit dp tz sub st = st\<lparr>alerts := alerts st @ [''Please fill in all required fields.'']\<rparr>"
  by (auto simp: submit_def rejected_def Let_def)

lemma submit_accepted:
  assumes "expenses st < next_ref st" "\<not> rejected sub"
  shows "ledger (submit dp tz sub st)
           = ledger st @ [\<lparr>id' = Date_now sub, amount = parseFloat (amountInput sub),
                            date = dateInput sub, category = categorySelect sub,
                            description = descriptionInput sub\<rparr>]"
    and "localStorage (submit dp tz sub st)
           = (localStorage st)(''expenses'' \<mapsto> Stringified (ledger (submit dp tz sub st)))"
    and "expenses (submit dp tz sub st) = expenses st"
    and "next_ref st \<le> next_ref (submit dp tz sub st)"
    and "alerts (submit dp tz sub st) = alerts st"
proof -
  define new where "new = \<lparr>id' = Date_now sub, amount = parseFloat (amountInput sub),
                            date = dateInput sub, category = categorySelect sub,
                            description = descriptionInput sub\<rparr>"
  define st2 where "st2 = saveExpenses (Array_push (expenses st) new st)"
  define st3 where "st3 = applyFilters dp tz (clock sub) st2"
  have s: "submit dp tz sub st = (populateFilterCategories st3)\<lparr>successMessage := True\<rparr>"
    using assms(2) by (auto simp: submit_def rejected_def Let_def st3_def st2_def new_def)
  have wf2: "expenses st2 < next_ref st2"
    using assms(1) by (simp add: st2_def saveExpenses_def Array_push_def)
  have l2: "ledger st2 = ledger st @ [new]"
    by (simp add: st2_def saveExpenses_def Array_push_def ledger_def)
  have e2: "expenses st2 = expenses st" "next_ref st2 = next_ref st" "alerts st2 = alerts st"
    by (simp_all add: st2_def saveExpenses_def Array_push_def)
  have ls2: "localStorage st2 = (localStorage st)(''expenses'' \<mapsto> Stringified (ledger st @ [new]))"
    by (simp add: st2_def saveExpenses_def Array_push_def ledger_def)
  note af = applyFilters_effect[OF wf2, of dp tz "clock sub", folded st3_def]
  have l3: "ledger st3 = ledger st @ [new]"
    using af(2,3) l2 by (simp add: ledger_def)
  have fin: "ledger (submit dp tz sub st) = ledger st @ [new]"
    using l3 by (simp add: s populateFilterCategories_def Let_def ledger_def)
  show "ledger (submit dp tz sub st)
           = ledger st @ [\<lparr>id' = Date_now sub, amount = parseFloat (amountInput sub),
                            date = dateInput sub, category = categorySelect sub,
                            description = descriptionInput sub\<rparr>]"
    using fin by (simp add: new_def)
  show "localStorage (submit dp tz sub st)
           = (localStorage st)(''expenses'' \<mapsto> Stringified (ledger (submit dp tz sub st)))"
    using af(5) ls2 by (simp add: fin) (simp add: s populateFilterCategories_def Let_def)
  show "expenses (submit dp tz sub st) = expenses st"
    using af(3) e2 by (simp add: s populateFilterCategories_def Let_def)
  show "next_ref st \<le> next_ref (submit dp tz sub st)"
    using af(4) e2 by (simp add: s populateFilterCategories_def Let_def)
  show "alerts (submit dp tz sub st) = alerts st"
    using af(7) e2 by (simp add: s populateFilterCategories_def Let_def)
qed

lemma submit_wf: "expenses st < next_ref st \<Longrightarrow>
    expenses (submit dp tz sub st) < next_ref (submit dp tz sub st)"
proof (cases "rejected sub")
  case True
  assume "expenses st < next_ref st"
  then show ?thesis using True by (simp add: submit_rejected)
next
  case False
  assume wf: "expenses st < next_ref st"
  show ?thesis using submit_accepted(3,4)[OF wf False, of dp tz] wf by simp
qed

lemma submit_ids:
  assumes "expenses st < next_ref st"
  shows "map id' (ledger (submit dp tz sub st))
         = map id' (ledger st) @ (if rejected sub then [] else [Date_now sub])"
proof (cases "rejected sub")
  case True
  then show ?thesis by (simp add: submit_rejected ledger_def)
next
  case False
  then show ?thesis using submit_accepted(1)[OF assms False, of dp tz] by simp
qed

lemma submits_ledger_ids:
  assumes "expenses st < next_ref st"
  shows "map id' (ledger (submits dp tz subs st))
         = map id' (ledger st) @ map Date_now (filter (\<lambda>s. \<not> rejected s) subs)"
  using assms
proof (induction subs arbitrary: st)
  case Nil
  then show ?case by (simp add: submits_def)
next
  case (Cons sub subs)
  have wf: "expenses (submit dp tz sub st) < next_ref (submit dp tz sub st)"
    using Cons.prems by (rule submit_wf)
  have "submits dp tz (sub # subs) st = submits dp tz subs (submit dp tz sub st)"
    by (simp add: submits_def)
  then show ?case
    using Cons.IH[OF wf] submit_ids[OF Cons.prems, of dp tz sub] by simp
qed

lemma parseFloat_100: "parseFloat ''100'' = Fin 100"
  by (simp add: parseFloat_def is_StrWhiteSpaceChar_def is_digit_def digits_value_def
      digit_val_def exponent_part_def Let_def)

lemma parseFloat_minus_5: "parseFloat ''-5'' = Fin (- 5)"
  by (simp add: parseFloat_def is_StrWhiteSpaceChar_def is_digit_def digits_value_def
      digit_val_def exponent_part_def Let_def)

lemma parseFloat_0: "parseFloat ''0'' = Fin 0"
  by (simp add: parseFloat_def is_StrWhiteSpaceChar_def is_digit_def digits_value_def
      digit_val_def exponent_part_def Let_def)

lemma parseFloat_empty: "parseFloat [] = NaN"
  by (simp add: parseFloat_def Let_def)

lemma ledger_alerts: "ledger (st\<lparr>alerts := a\<rparr>) = ledger st"
  by (simp add: ledger_def)

text \<open>
  C10.  A submission is turned down, with the alert and no other change of the state (so
  the ledger and the storage stay as they were), exactly when the amount parses to \<open>0\<close> or
  to NaN or the date or the category is the empty string.  Every other submission appends
  one record with the parsed amount and stores the new ledger; this includes an amount that
  parses to a negative number.
\<close>

theorem submit_validation:
  assumes "expenses st < next_ref st"
  shows "(if parseFloat (amountInput sub) = Fin 0 \<or> parseFloat (amountInput sub) = NaN
             \<or> dateInput sub = [] \<or> categorySelect sub = []
          then submit dp tz sub st
                 = st\<lparr>alerts := alerts st @ [''Please fill in all required fields.'']\<rparr>
               \<and> ledger (submit dp tz sub st) = ledger st
               \<and> localStorage (submit dp tz sub st) = localStorage st
          else ledger (submit dp tz sub st)
                 = ledger st @ [\<lparr>id' = Date_now sub, amount = parseFloat (amountInput sub),
                                  date = dateInput sub, category = categorySelect sub,
                                  description = descriptionInput sub\<rparr>]
               \<and> localStorage (submit dp tz sub st)
                 = (localStorage st)(''expenses'' \<mapsto> Stringified (ledger (submit dp tz sub st)))
               \<and> alerts (submit dp tz sub st) = alerts st)
    \<and> (\<forall>q. parseFloat (amountInput sub) = Fin q \<and> q < 0 \<and> dateInput sub \<noteq> []
             \<and> categorySelect sub \<noteq> []
           \<longrightarrow> ledger (submit dp tz sub st)
                 = ledger st @ [\<lparr>id' = Date_now sub, amount = Fin q,
                                  date = dateInput sub, category = categorySelect sub,
                                  description = descriptionInput sub\<rparr>])"
proof -
  have r: "rejected sub \<longleftrightarrow> parseFloat (amountInput sub) = Fin 0 \<or> parseFloat (amountInput sub) = NaN
             \<or> dateInput sub = [] \<or> categorySelect sub = []"
    by (auto simp: rejected_def truthy_iff)
  have 1: "submit dp tz sub st
                 = st\<lparr>alerts := alerts st @ [''Please fill in all required fields.'']\<rparr>
               \<and> ledger (submit dp tz sub st) = ledger st
               \<and> localStorage (submit dp tz sub st) = localStorage st" if "rejected sub"
    using that by (simp add: submit_rejected ledger_def)
  have 2: "ledger (submit dp tz sub st)
                 = ledger st @ [\<lparr>id' = Date_now sub, amount = parseFloat (amountInput sub),
                                  date = dateInput sub, category = categorySelect sub,
                                  description = descriptionInput sub\<rparr>]
               \<and> localStorage (submit dp tz sub st)
                 = (localStorage st)(''expenses'' \<mapsto> Stringified (ledger (submit dp tz sub st)))
               \<and> alerts (submit dp tz sub st) = alerts st" if "\<not> rejected sub"
    using submit_accepted(1,2,5)[OF assms that, of dp tz] by simp
  have 3: "ledger (submit dp tz sub st)
                 = ledger st @ [\<lparr>id' = Date_now sub, amount = Fin q,
                                  date = dateInput sub, category = categorySelect sub,
                                  description = descriptionInput sub\<rparr>]"
    if "parseFloat (amountInput sub) = Fin q" "q < 0" "dateInput sub \<noteq> []" "categorySelect sub \<noteq> []"
    for q
  proof -
    have "\<not> rejected sub" using that by (simp add: r)
    then show ?thesis using 2 that(1) by simp
  qed
  show ?thesis using 1 2 3 r by (cases "rejected sub") (auto simp: ledger_alerts)
qed

theorem submit_validation_witness:
  "ledger (submit Date_parse_date_only UTC_zone
      \<lparr>amountInput = ''-5'', dateInput = ''2024-01-08'', categorySelect = ''Food'',
       descriptionInput = ''refund'', Date_now = 1704844800000, clock = 1704844800001\<rparr> fresh)
   = [\<lparr>id' = 1704844800000, amount = Fin (- 5), date = ''2024-01-08'', category = ''Food'',
       description = ''refund''\<rparr>]
   \<and> ledger (submit Date_parse_date_only UTC_zone
      \<lparr>amountInput = ''0'', dateInput = ''2024-01-08'', categorySelect = ''Food'',
       descriptionInput = ''nothing'', Date_now = 1704844800000, clock = 1704844800001\<rparr> fresh)
   = []"
proof -
  have wf: "expenses fresh < next_ref fresh" by (simp add: fresh_def)
  have l: "ledger fresh = []" by (simp add: fresh_def ledger_def)
  show ?thesis
    using submit_validation[OF wf, of
        "\<lparr>amountInput = ''-5'', dateInput = ''2024-01-08'', categorySelect = ''Food'',
          descriptionInput = ''refund'', Date_now = 1704844800000, clock = 1704844800001\<rparr>"
        Date_parse_date_only UTC_zone]
      submit_validation[OF wf, of
        "\<lparr>amountInput = ''0'', dateInput = ''2024-01-08'', categorySelect = ''Food'',
          descriptionInput = ''nothing'', Date_now = 1704844800000, clock = 1704844800001\<rparr>"
        Date_parse_date_only UTC_zone]
    by (simp add: parseFloat_minus_5 parseFloat_0 l ledger_alerts)
qed

text \<open>
  C8 (amended).  After any sequence of submissions, the ids in the ledger are the ids that
  it held before, followed by the readings of \<open>Date.now()\<close> at the accepted submissions, in
  order.  They are pairwise distinct exactly when these are: when the ids held before are
  distinct, the readings at the accepted submissions are distinct, and no reading is an id
  held before.
\<close>

theorem submits_ids:
  assumes "expenses st < next_ref st"
  shows "map id' (ledger (submits dp tz subs st))
           = map id' (ledger st) @ map Date_now (filter (\<lambda>s. \<not> rejected s) subs)
    \<and> (distinct (map id' (ledger (submits dp tz subs st)))
        \<longleftrightarrow> distinct (map id' (ledger st))
            \<and> distinct (map Date_now (filter (\<lambda>s. \<not> rejected s) subs))
            \<and> set (map id' (ledger st))
                \<inter> set (map Date_now (filter (\<lambda>s. \<not> rejected s) subs)) = {})"
proof -
  have "map id' (ledger (submits dp tz subs st))
           = map id' (ledger st) @ map Date_now (filter (\<lambda>s. \<not> rejected s) subs)"
    using assms by (rule submits_ledger_ids)
  then show ?thesis by (simp only: distinct_append)
qed

theorem submits_ids_witness:
  "map id' (ledger (submits Date_parse_date_only UTC_zone
      [\<lparr>amountInput = ''100'', dateInput = ''2024-01-01'', categorySelect = ''Food'',
        descriptionInput = ''lunch'', Date_now = 1704844800000, clock = 1704844800001\<rparr>,
       \<lparr>amountInput = ''0'', dateInput = ''2024-01-01'', categorySelect = ''Food'',
        descriptionInput = ''nothing'', Date_now = 1704844800005, clock = 1704844800006\<rparr>,
       \<lparr>amountInput = ''100'', dateInput = ''2024-01-08'', categorySelect = ''Rent'',
        descriptionInput = ''room'', Date_now = 1704844800010, clock = 1704844800011\<rparr>] fresh))
   = [1704844800000, 1704844800010]
   \<and> distinct (map id' (ledger (submits Date_parse_date_only UTC_zone
      [\<lparr>amountInput = ''100'', dateInput = ''2024-01-01'', categorySelect = ''Food'',
        descriptionInput = ''lunch'', Date_now = 1704844800000, clock = 1704844800001\<rparr>,
       \<lparr>amountInput = ''0'', dateInput = ''2024-01-01'', categorySelect = ''Food'',
        descriptionInput = ''nothing'', Date_now = 1704844800005, clock = 1704844800006\<rparr>,
       \<lparr>amountInput = ''100'', dateInput = ''2024-01-08'', categorySelect = ''Rent'',
        descriptionInput = ''room'', Date_now = 1704844800010, clock = 1704844800011\<rparr>] fresh)))"
proof -
  have wf: "expenses fresh < next_ref fresh" by (simp add: fresh_def)
  have l: "ledger fresh = []" by (simp add: fresh_def ledger_def)
  show ?thesis
    using submits_ids[OF wf, of Date_parse_date_only UTC_zone
      "[\<lparr>amountInput = ''100'', dateInput = ''2024-01-01'', categorySelect = ''Food'',
        descriptionInput = ''lunch'', Date_now = 1704844800000, clock = 1704844800001\<rparr>,
       \<lparr>amountInput = ''0'', dateInput = ''2024-01-01'', categorySelect = ''Food'',
        descriptionInput = ''nothing'', Date_now = 1704844800005, clock = 1704844800006\<rparr>,
       \<lparr>amountInput = ''100'', dateInput = ''2024-01-08'', categorySelect = ''Rent'',
        descriptionInput = ''room'', Date_now = 1704844800010, clock = 1704844800011\<rparr>]"]
    by (simp add: l rejected_def parseFloat_100 parseFloat_0)
qed

text \<open>
  The claim as stated fails: two accepted submissions for which \<open>Date.now()\<close> reads the same
  millisecond give two records with the same id.
\<close>

theorem submits_ids_counterexample:
  "map id' (ledger (submits Date_parse_date_only UTC_zone
      [\<lparr>amountInput = ''100'', dateInput = ''2024-01-01'', categorySelect = ''Food'',
        descriptionInput = ''lunch'', Date_now = 1704844800000, clock = 1704844800000\<rparr>,
       \<lparr>amountInput = ''100'', dateInput = ''2024-01-08'', categorySelect = ''Rent'',
        descriptionInput = ''room'', Date_now = 1704844800000, clock = 1704844800001\<rparr>] fresh))
   = [1704844800000, 1704844800000]"
proof -
  have wf: "expenses fresh < next_ref fresh" by (simp add: fresh_def)
  have l: "ledger fresh = []" by (simp add: fresh_def ledger_def)
  show ?thesis
    by (simp add: submits_ledger_ids[OF wf] l rejected_def parseFloat_100)
qed

subsection \<open>Allocated references\<close>

text \<open>
  The theorems on the handlers assume that the array of \<open>expenses\<close> is allocated.  This holds
  at the start and is kept by every handler.  It matters: sorting is in place, so a sort
  of the ledger's own array would reorder the ledger.
\<close>

lemma fresh_allocated: "expenses fresh < next_ref fresh"
  by (simp add: fresh_def)

lemma applyFilters_allocated:
  "expenses st < next_ref st \<Longrightarrow>
   expenses (applyFilters dp tz now st) < next_ref (applyFilters dp tz now st)"
  using applyFilters_effect(3,4)[of st dp tz now] by simp

lemma submits_allocated:
  "expenses st < next_ref st \<Longrightarrow>
   expenses (submits dp tz subs st) < next_ref (submits dp tz subs st)"
proof (induction subs arbitrary: st)
  case Nil
  then show ?case by (simp add: submits_def)
next
  case (Cons sub subs)
  have "submits dp tz (sub # subs) st = submits dp tz subs (submit dp tz sub st)"
    by (simp add: submits_def)
  then show ?case using Cons.IH[OF submit_wf[OF Cons.prems]] by simp
qed

lemma Array_sort_in_place: "heap (Array_sort cmp a st) a = sorted_by cmp (heap st a)"
  by (simp add: Array_sort_def)

section \<open>Loading\<close>

text \<open>
  C1.  When nothing is stored, \<open>expenses\<close> starts as the empty array, and so it does for a
  stored text that is JSON for a falsy value.  A stored text that is not JSON, the empty
  text among them, makes \<open>JSON.parse\<close> throw a \<open>SyntaxError\<close>, which nothing catches; and a
  stored text that is JSON for a value of another shape is taken as it is.
\<close>

theorem loadExpenses_cases:
  "loadExpenses None = Inr (JArr [])
   \<and> loadExpenses (Some ''null'') = Inr (JArr [])
   \<and> loadExpenses (Some []) = Inl SyntaxError
   \<and> loadExpenses (Some ''{'') = Inl SyntaxError
   \<and> loadExpenses (Some ''expenses'') = Inl SyntaxError
   \<and> loadExpenses (Some ''{}'') = Inr (JObj [])"
  by (simp add: loadExpenses_def JSON_parse_def between_def is_json_ws_def is_word_char_def
      word_token_def json_number_def is_digit_def parse_step_def open_or_value_def
      close_object_def close_array_def take_key_def Let_def)

theorem loadExpenses_cases_witness:
  "loadExpenses (Some []) = Inl SyntaxError \<and> loadExpenses None = Inr (JArr [])"
  using loadExpenses_cases by simp

end
